theory Spec2Isabelle
  imports Complex_Main "HOL-Library.AList" "HOL-Library.Multiset"
begin

section \<open>Complex intersections of OSM2GMNS: object store and network\<close>

text \<open>
  The module \<^verbatim>\<open>osm2gmns/osmnet/complex_intersection.py\<close> mutates Python objects that are
  shared between the network's dictionaries, the links' endpoint fields and the nodes'
  adjacency lists. The model keeps an explicit object store: a Node or Link object is
  identified by its address (a natural number), the fields \<open>from_node\<close>, \<open>to_node\<close> and
  the adjacency lists hold addresses, and the dictionaries of the network map a key to an
  address. Python compares Node and Link objects by identity, which is equality of
  addresses here.

  Python's floats are kept abstract: coordinates have an arbitrary type \<open>'f\<close>, and the
  float operations the code uses are parameters (record \<open>py_env\<close> below). Link lengths
  and the distance threshold are only compared; they are Python floats by value (type
  \<open>py_float\<close> below): a real number, one of the two infinities, or not a number.

  The classes \<open>Node\<close> and \<open>Link\<close> are not part of the module. The records below hold the
  fields that the module reads or writes, with the types of their populated values: only
  \<open>main_node_id\<close> may be \<^verbatim>\<open>None\<close>, as in the specification's data model.
\<close>

type_synonym nref = nat
type_synonym lref = nat

text \<open>
  The value of a Python float, and Python's comparisons \<^verbatim>\<open>a > b\<close> and \<^verbatim>\<open>a <= b\<close> on floats:
  every comparison with \<^verbatim>\<open>nan\<close> is false, and the other values are ordered as numbers,
  with \<^verbatim>\<open>-inf\<close> below and \<^verbatim>\<open>inf\<close> above all of them.
\<close>

datatype py_float = Num real | PosInf | NegInf | NaN

fun float_gt :: "py_float \<Rightarrow> py_float \<Rightarrow> bool" where
  "float_gt NaN b = False"
| "float_gt a NaN = False"
| "float_gt (Num x) (Num y) = (x > y)"
| "float_gt a PosInf = False"
| "float_gt PosInf b = True"
| "float_gt NegInf b = False"
| "float_gt a NegInf = True"

fun float_le :: "py_float \<Rightarrow> py_float \<Rightarrow> bool" where
  "float_le NaN b = False"
| "float_le a NaN = False"
| "float_le (Num x) (Num y) = (x \<le> y)"
| "float_le a PosInf = True"
| "float_le PosInf b = False"
| "float_le NegInf b = True"
| "float_le a NegInf = False"

record 'f node =
  node_id :: int
  osm_node_id :: string
  osm_highway :: string
  main_node_id :: "int option"
  ctrl_type :: string
  geometry :: "'f \<times> 'f"
  geometry_xy :: "'f \<times> 'f"
  incoming_link_list :: "lref list"
  outgoing_link_list :: "lref list"

record link =
  link_id :: int
  from_node :: nref
  to_node :: nref
  link_length :: py_float

text \<open>
  \<open>node_objs\<close> and \<open>link_objs\<close> are the store; \<open>node_count\<close> is the number of Node objects
  allocated so far, so that the next \<^verbatim>\<open>Node(...)\<close> call yields the address \<open>node_count\<close>.
  The dictionaries are insertion-ordered association lists, as Python's \<^verbatim>\<open>dict\<close> is.
\<close>

record 'f network =
  node_objs :: "nref \<Rightarrow> 'f node"
  node_count :: nat
  link_objs :: "lref \<Rightarrow> link"
  node_dict :: "(int \<times> nref) list"
  link_dict :: "(int \<times> lref) list"
  max_node_id :: int
  max_main_node_id :: int

datatype error = KeyError

text \<open>\<^verbatim>\<open>del d[k]\<close> raises KeyError when the key is absent.\<close>

definition dict_del :: "'k \<Rightarrow> ('k \<times> 'v) list \<Rightarrow> error + ('k \<times> 'v) list" where
  "dict_del k d = (if k \<in> fst ` set d then Inr (AList.delete k d) else Inl KeyError)"

section \<open>Detection: \<^verbatim>\<open>_identifyComplexIntersections\<close>\<close>

text \<open>
  A Python set of nodes or of links is a list of addresses without duplicates; its order
  is the model's choice of iteration order, and no result below depends on it.
  \<open>py_set2 a b\<close> is the set display \<^verbatim>\<open>{a, b}\<close>.
\<close>

definition py_set2 :: "nref \<Rightarrow> nref \<Rightarrow> nref list" where
  "py_set2 a b = List.insert b [a]"

text \<open>Lines 33-38: one iteration of the loop over \<^verbatim>\<open>network.link_dict.items()\<close>.\<close>

definition scan_link ::
  "py_float \<Rightarrow> 'f network \<Rightarrow> lref \<Rightarrow> nref list list \<times> nat list \<Rightarrow> nref list list \<times> nat list" where
  "scan_link int_buffer net l gg =
     (case gg of (group_list, group_status) \<Rightarrow>
        let lk = link_objs net l in
        if float_gt (link_length lk) int_buffer then gg
        else if \<not> (main_node_id (node_objs net (from_node lk)) = None
                   \<and> main_node_id (node_objs net (to_node lk)) = None) then gg
        else if \<not> (ctrl_type (node_objs net (from_node lk)) = ''signal''
                   \<and> ctrl_type (node_objs net (to_node lk)) = ''signal'') then gg
        else (group_list @ [py_set2 (from_node lk) (to_node lk)], group_status @ [1]))"

definition candidate_groups :: "py_float \<Rightarrow> 'f network \<Rightarrow> nref list list \<times> nat list" where
  "candidate_groups int_buffer net =
     fold (scan_link int_buffer net) (map snd (link_dict net)) ([], [])"

text \<open>
  Lines 44-49: the inner loop body for \<open>group1 = group_list[i]\<close> and \<open>group2 = group_list[j]\<close>.
  \<^verbatim>\<open>group1.update(group2)\<close> mutates the set stored at index \<open>i\<close>.
\<close>

definition inner_step ::
  "nat \<Rightarrow> nat \<Rightarrow> nref list list \<times> nat list \<Rightarrow> nref list list \<times> nat list" where
  "inner_step i j gg =
     (case gg of (group_list, group_status) \<Rightarrow>
        if group_status ! j = 0 then gg
        else if i = j then gg
        else if filter (\<lambda>x. x \<in> set (group_list ! j)) (group_list ! i) \<noteq> []
        then (group_list[i := List.union (group_list ! j) (group_list ! i)],
              group_status[j := 0])
        else gg)"

text \<open>Lines 42-49: the outer loop body.\<close>

definition outer_step ::
  "nat \<Rightarrow> nref list list \<times> nat list \<Rightarrow> nref list list \<times> nat list" where
  "outer_step i gg =
     (if snd gg ! i = 0 then gg
      else fold (inner_step i) [0..<length (fst gg)] gg)"

definition merge_pass :: "nref list list \<times> nat list \<Rightarrow> nref list list \<times> nat list" where
  "merge_pass gg = fold outer_step [0..<length (fst gg)] gg"

text \<open>
  The number of active groups never grows in a pass, and a pass that leaves it unchanged
  has changed nothing; the first fact is what makes the \<^verbatim>\<open>while True\<close> loop terminate.
\<close>

lemma sum_list_update_zero_le: "sum_list (gs[j := 0]) \<le> sum_list (gs :: nat list)"
  by (induction gs arbitrary: j) (auto split: nat.splits)

lemma sum_list_update_zero_less:
  "j < length gs \<Longrightarrow> gs ! j \<noteq> 0 \<Longrightarrow> sum_list (gs[j := 0]) < sum_list (gs :: nat list)"
proof (induction gs arbitrary: j)
  case Nil
  then show ?case by simp
next
  case (Cons a gs)
  show ?case
  proof (cases j)
    case 0
    with Cons.prems show ?thesis by simp
  next
    case (Suc k)
    with Cons.prems Cons.IH [of k] show ?thesis by simp
  qed
qed

lemma fold_potential_le:
  fixes \<phi> :: "'s \<Rightarrow> nat"
  assumes "\<And>x s. \<phi> (f x s) \<le> \<phi> s"
  shows "\<phi> (fold f xs s) \<le> \<phi> s"
proof (induction xs arbitrary: s)
  case Nil
  show ?case by simp
next
  case (Cons x xs)
  have "\<phi> (fold f xs (f x s)) \<le> \<phi> (f x s)" by (rule Cons.IH)
  also have "\<dots> \<le> \<phi> s" by (rule assms)
  finally show ?case by simp
qed

lemma fold_potential_fix:
  fixes \<phi> :: "'s \<Rightarrow> nat"
  assumes le: "\<And>x s. \<phi> (f x s) \<le> \<phi> s"
    and fixd: "\<And>x s. x \<in> set xs \<Longrightarrow> I s \<Longrightarrow> \<phi> (f x s) = \<phi> s \<Longrightarrow> f x s = s"
    and inv: "I s"
    and eq: "\<phi> (fold f xs s) = \<phi> s"
  shows "\<forall>x\<in>set xs. f x s = s"
  using fixd eq
proof (induction xs)
  case Nil
  show ?case by simp
next
  case (Cons x xs)
  have a: "\<phi> (fold f xs (f x s)) \<le> \<phi> (f x s)" by (rule fold_potential_le) (rule le)
  have b: "\<phi> (f x s) \<le> \<phi> s" by (rule le)
  from Cons.prems(2) have c: "\<phi> (fold f xs (f x s)) = \<phi> s" by simp
  from a b c have d: "\<phi> (f x s) = \<phi> s" by simp
  have e: "f x s = s" by (rule Cons.prems(1)) (simp_all add: inv d)
  have "\<forall>y\<in>set xs. f y s = s"
  proof (rule Cons.IH)
    show "\<And>y s. y \<in> set xs \<Longrightarrow> I s \<Longrightarrow> \<phi> (f y s) = \<phi> s \<Longrightarrow> f y s = s"
      using Cons.prems(1) by simp
    show "\<phi> (fold f xs s) = \<phi> s" using c e by simp
  qed
  with e show ?case by simp
qed

lemma fold_fixed: "\<forall>x\<in>set xs. f x s = s \<Longrightarrow> fold f xs s = s"
  by (induction xs) simp_all

lemma inner_step_length:
  "length (fst (inner_step i j gg)) = length (fst gg) \<and> length (snd (inner_step i j gg)) = length (snd gg)"
  by (cases gg) (simp add: inner_step_def)

lemma inner_step_le: "sum_list (snd (inner_step i j gg)) \<le> sum_list (snd gg)"
  by (cases gg) (simp add: inner_step_def sum_list_update_zero_le)

lemma inner_step_fix:
  assumes "j < length (snd gg)" "sum_list (snd (inner_step i j gg)) = sum_list (snd gg)"
  shows "inner_step i j gg = gg"
proof (cases gg)
  case (Pair gl gs)
  show ?thesis
  proof (rule ccontr)
    assume ne: "inner_step i j gg \<noteq> gg"
    with Pair have "gs ! j \<noteq> 0" and "inner_step i j gg = (gl[i := List.union (gl ! j) (gl ! i)], gs[j := 0])"
      by (auto simp: inner_step_def split: if_splits)
    with assms Pair sum_list_update_zero_less [of j gs] show False by simp
  qed
qed

lemma inner_fold_length:
  "length (fst (fold (inner_step i) js gg)) = length (fst gg) \<and> length (snd (fold (inner_step i) js gg)) = length (snd gg)"
  by (induction js arbitrary: gg) (simp_all add: inner_step_length)

lemma outer_step_length:
  "length (fst (outer_step i gg)) = length (fst gg) \<and> length (snd (outer_step i gg)) = length (snd gg)"
  by (simp add: outer_step_def inner_fold_length)

lemma outer_step_le: "sum_list (snd (outer_step i gg)) \<le> sum_list (snd gg)"
  unfolding outer_step_def
  by (simp add: fold_potential_le [where \<phi> = "\<lambda>gg. sum_list (snd gg)"] inner_step_le)

lemma outer_fold_length:
  "length (fst (fold outer_step js gg)) = length (fst gg) \<and> length (snd (fold outer_step js gg)) = length (snd gg)"
  by (induction js arbitrary: gg) (simp_all add: outer_step_length)

lemma merge_pass_length:
  "length (fst (merge_pass gg)) = length (fst gg) \<and> length (snd (merge_pass gg)) = length (snd gg)"
  by (simp add: merge_pass_def outer_fold_length)

lemma merge_pass_le: "sum_list (snd (merge_pass gg)) \<le> sum_list (snd gg)"
  unfolding merge_pass_def
  by (simp add: fold_potential_le [where \<phi> = "\<lambda>gg. sum_list (snd gg)"] outer_step_le)

text \<open>
  Lines 40-55: the \<^verbatim>\<open>while True\<close> loop. It is called with
  \<open>number_of_valid_groups = sum(group_status)\<close>.
\<close>

function merge_loop ::
  "nref list list \<times> nat list \<Rightarrow> nat \<Rightarrow> nref list list \<times> nat list" where
  "merge_loop gg number_of_valid_groups =
     (let gg' = merge_pass gg;
          new_number_of_valid_groups = sum_list (snd gg')
      in if number_of_valid_groups = new_number_of_valid_groups then gg'
         else merge_loop gg' new_number_of_valid_groups)"
  by pat_completeness auto
termination
proof (relation "measure (\<lambda>(gg, n). sum_list (snd gg) + (if n = sum_list (snd gg) then 0 else 1))")
  show "wf (measure (\<lambda>(gg, n). sum_list (snd gg) + (if n = sum_list (snd gg) then 0 else 1)))"
    by simp
next
  fix gg :: "nref list list \<times> nat list" and n :: nat and x xa
  assume "x = merge_pass gg" "xa = sum_list (snd x)" "n \<noteq> xa"
  with merge_pass_le [of gg]
  show "((x, xa), gg, n) \<in> measure (\<lambda>(gg, n). sum_list (snd gg) + (if n = sum_list (snd gg) then 0 else 1))"
    by auto
qed

text \<open>Lines 57-62: every member of an active group gets the next identifier.\<close>

definition stamp :: "int \<Rightarrow> nref \<Rightarrow> 'f network \<Rightarrow> 'f network" where
  "stamp m r net = net\<lparr>node_objs := (node_objs net)(r := (node_objs net r)\<lparr>main_node_id := Some m\<rparr>)\<rparr>"

definition assign_step ::
  "nref list list \<Rightarrow> nat list \<Rightarrow> nat \<Rightarrow> 'f network \<times> int \<Rightarrow> 'f network \<times> int" where
  "assign_step group_list group_status group_no nm =
     (if group_status ! group_no = 0 then nm
      else (fold (stamp (snd nm)) (group_list ! group_no) (fst nm), snd nm + 1))"

definition assign_ids :: "nref list list \<times> nat list \<Rightarrow> 'f network \<Rightarrow> 'f network" where
  "assign_ids gg net =
     (let nm = fold (assign_step (fst gg) (snd gg)) [0..<length (fst gg)] (net, max_main_node_id net)
      in (fst nm)\<lparr>max_main_node_id := snd nm\<rparr>)"

text \<open>The groups that survive the merge loop, and the whole of detection.\<close>

definition merged_groups :: "py_float \<Rightarrow> 'f network \<Rightarrow> nref list list \<times> nat list" where
  "merged_groups int_buffer net =
     (let gg = candidate_groups int_buffer net in merge_loop gg (sum_list (snd gg)))"

definition identifyComplexIntersections :: "'f network \<Rightarrow> py_float \<Rightarrow> 'f network" where
  "identifyComplexIntersections net int_buffer = assign_ids (merged_groups int_buffer net) net"

text \<open>
  The condition under which a link passes the three tests of lines 34-36: its length is
  not greater than the threshold, both endpoints are without group identifier, both
  endpoints are signal-controlled.
\<close>

definition contributes :: "py_float \<Rightarrow> 'f network \<Rightarrow> lref \<Rightarrow> bool" where
  "contributes int_buffer net l \<longleftrightarrow>
     \<not> float_gt (link_length (link_objs net l)) int_buffer
     \<and> main_node_id (node_objs net (from_node (link_objs net l))) = None
     \<and> main_node_id (node_objs net (to_node (link_objs net l))) = None
     \<and> ctrl_type (node_objs net (from_node (link_objs net l))) = ''signal''
     \<and> ctrl_type (node_objs net (to_node (link_objs net l))) = ''signal''"

text \<open>
  The same condition in the specification's words: length at most the threshold, both
  endpoints without group identifier, both endpoints signal-controlled.
\<close>

definition spec_contributes :: "py_float \<Rightarrow> 'f network \<Rightarrow> lref \<Rightarrow> bool" where
  "spec_contributes int_buffer net l \<longleftrightarrow>
     float_le (link_length (link_objs net l)) int_buffer
     \<and> main_node_id (node_objs net (from_node (link_objs net l))) = None
     \<and> main_node_id (node_objs net (to_node (link_objs net l))) = None
     \<and> ctrl_type (node_objs net (from_node (link_objs net l))) = ''signal''
     \<and> ctrl_type (node_objs net (to_node (link_objs net l))) = ''signal''"

definition link_group :: "'f network \<Rightarrow> lref \<Rightarrow> nref list" where
  "link_group net l = py_set2 (from_node (link_objs net l)) (to_node (link_objs net l))"

section \<open>Notions for the verification of detection\<close>

definition disjoint_active :: "nref list list \<times> nat list \<Rightarrow> bool" where
  "disjoint_active gg \<longleftrightarrow>
     (\<forall>i<length (fst gg). \<forall>j<length (fst gg).
        i \<noteq> j \<and> snd gg ! i \<noteq> 0 \<and> snd gg ! j \<noteq> 0 \<longrightarrow> set (fst gg ! i) \<inter> set (fst gg ! j) = {})"

definition covers :: "nref list list \<Rightarrow> nref list list \<times> nat list \<Rightarrow> bool" where
  "covers gl0 gg \<longleftrightarrow>
     length (fst gg) = length gl0 \<and> length (snd gg) = length gl0
     \<and> (\<forall>k<length gl0. \<exists>i<length gl0. snd gg ! i \<noteq> 0 \<and> set (gl0 ! k) \<subseteq> set (fst gg ! i))
     \<and> (\<forall>i<length gl0. set (fst gg ! i) \<subseteq> \<Union> (set ` set gl0))"

definition active_before :: "nat list \<Rightarrow> nat \<Rightarrow> nat" where
  "active_before gs k = length (filter (\<lambda>i. gs ! i \<noteq> 0) [0..<k])"

definition in_active_group :: "nref list list \<times> nat list \<Rightarrow> nat \<Rightarrow> nref \<Rightarrow> bool" where
  "in_active_group gg k r \<longleftrightarrow> (\<exists>i<k. snd gg ! i \<noteq> 0 \<and> r \<in> set (fst gg ! i))"

definition assigned :: "nref list list \<times> nat list \<Rightarrow> nat \<Rightarrow> 'f network \<Rightarrow> 'f network \<times> int" where
  "assigned gg k net = fold (assign_step (fst gg) (snd gg)) [0..<k] (net, max_main_node_id net)"

text \<open>
  \<open>carried net m\<close>: some node of the node collection has the group identifier \<open>m\<close>.
  \<open>minted_ids\<close> are the identifiers that a run of detection takes from the counter, from
  its value before the run up to its value after the run; they are fresh when no node of
  the node collection carries one of them before the run.
\<close>

definition carried :: "'f network \<Rightarrow> int \<Rightarrow> bool" where
  "carried net m \<longleftrightarrow>
     Some m \<in> (\<lambda>kr. main_node_id (node_objs net (snd kr))) ` set (node_dict net)"

definition minted_ids :: "'f network \<Rightarrow> py_float \<Rightarrow> int list" where
  "minted_ids net t =
     [max_main_node_id net .. max_main_node_id (identifyComplexIntersections net t) - 1]"

definition fresh_group_ids :: "'f network \<Rightarrow> py_float \<Rightarrow> bool" where
  "fresh_group_ids net t \<longleftrightarrow> (\<forall>m\<in>set (minted_ids net t). \<not> carried net m)"

section \<open>Consolidation: \<^verbatim>\<open>consolidateComplexIntersections\<close>\<close>

text \<open>
  What the module takes from outside \<^verbatim>\<open>src/\<close>: the class \<open>Node\<close>, Python's float
  arithmetic and \<^verbatim>\<open>round\<close>, and the two precisions of \<^verbatim>\<open>osm2gmns.settings\<close>. They are
  parameters of the model.
\<close>

record 'f py_env =
  blank_node :: "'f node"
  float_zero :: 'f
  float_add :: "'f \<Rightarrow> 'f \<Rightarrow> 'f"
  float_div :: "'f \<Rightarrow> nat \<Rightarrow> 'f"
  py_round :: "'f \<Rightarrow> int \<Rightarrow> 'f"
  lonlat_coord_precision :: int
  local_coord_precision :: int

text \<open>
  Modelled from the spec: the constructor \<^verbatim>\<open>Node(node_id)\<close> of
  \<^verbatim>\<open>osm2gmns.networkclass.macronet\<close>, which is not in \<^verbatim>\<open>src/\<close>. The specification mints the
  new node from \<open>network.max_node_id\<close>, without group identifier, and fills its adjacency
  lists by appending; the other fields of a fresh node are those of \<open>blank_node\<close>.
\<close>

definition Node :: "'f py_env \<Rightarrow> int \<Rightarrow> 'f node" where
  "Node env k =
     (blank_node env)\<lparr>node_id := k, main_node_id := None,
                       incoming_link_list := [], outgoing_link_list := []\<rparr>"

text \<open>\<^verbatim>\<open>'_'.join(osm_node_id_list)\<close>\<close>

fun join_underscore :: "string list \<Rightarrow> string" where
  "join_underscore [] = []"
| "join_underscore [x] = x"
| "join_underscore (x # y # ys) = x @ ''_'' @ join_underscore (y # ys)"

text \<open>
  Lines 89-99: the two dictionaries keyed by \<open>main_node_id\<close>. \<open>dict_append\<close> is
  \<^verbatim>\<open>node_group_dict[m].append(node)\<close> for a key that is present.
\<close>

definition dict_append :: "int \<Rightarrow> nref \<Rightarrow> (int \<times> nref list) list \<Rightarrow> (int \<times> nref list) list" where
  "dict_append m r gd = map (\<lambda>(k, g). if k = m then (k, g @ [r]) else (k, g)) gd"

definition group_step ::
  "'f network \<Rightarrow> int \<times> nref \<Rightarrow> (int \<times> nref list) list \<times> (int \<times> bool) list
     \<Rightarrow> (int \<times> nref list) list \<times> (int \<times> bool) list" where
  "group_step net kr dd =
     (case main_node_id (node_objs net (snd kr)) of
        None \<Rightarrow> dd
      | Some m \<Rightarrow>
          let dd1 = (if m \<in> fst ` set (fst dd) then (dict_append m (snd kr) (fst dd), snd dd)
                     else (AList.update m [snd kr] (fst dd), AList.update m False (snd dd)))
          in if ctrl_type (node_objs net (snd kr)) = ''signal''
             then (fst dd1, AList.update m True (snd dd1)) else dd1)"

definition node_groups ::
  "'f network \<Rightarrow> (int \<times> nref list) list \<times> (int \<times> bool) list" where
  "node_groups net = fold (group_step net) (node_dict net) ([], [])"

text \<open>
  The state of the loop over the groups: the network and the two removal sets.
\<close>

record 'f work =
  w_net :: "'f network"
  removal_node_set :: "nref list"
  removal_link_set :: "lref list"

record 'f coord_sums =
  osm_node_id_list :: "string list"
  x_coord_sum :: 'f
  y_coord_sum :: 'f
  x_coord_xy_sum :: 'f
  y_coord_xy_sum :: 'f

text \<open>Lines 125-131: one incoming link of a member.\<close>

definition incoming_step :: "nref list \<Rightarrow> nref \<Rightarrow> lref \<Rightarrow> 'f work \<Rightarrow> 'f work" where
  "incoming_step node_group new_node l w =
     (let net = w_net w in
      if from_node (link_objs net l) \<in> set node_group
      then w\<lparr>removal_link_set := List.insert l (removal_link_set w)\<rparr>
      else w\<lparr>w_net := net
             \<lparr>link_objs := (link_objs net)(l := (link_objs net l)\<lparr>to_node := new_node\<rparr>),
              node_objs := (node_objs net)(new_node := (node_objs net new_node)
                \<lparr>incoming_link_list := incoming_link_list (node_objs net new_node) @ [l]\<rparr>)\<rparr>\<rparr>)"

text \<open>Lines 132-138: one outgoing link of a member.\<close>

definition outgoing_step :: "nref list \<Rightarrow> nref \<Rightarrow> lref \<Rightarrow> 'f work \<Rightarrow> 'f work" where
  "outgoing_step node_group new_node l w =
     (let net = w_net w in
      if to_node (link_objs net l) \<in> set node_group
      then w\<lparr>removal_link_set := List.insert l (removal_link_set w)\<rparr>
      else w\<lparr>w_net := net
             \<lparr>link_objs := (link_objs net)(l := (link_objs net l)\<lparr>from_node := new_node\<rparr>),
              node_objs := (node_objs net)(new_node := (node_objs net new_node)
                \<lparr>outgoing_link_list := outgoing_link_list (node_objs net new_node) @ [l]\<rparr>)\<rparr>\<rparr>)"

text \<open>Lines 116-140: one member of the group.\<close>

definition member_step ::
  "'f py_env \<Rightarrow> nref list \<Rightarrow> nref \<Rightarrow> nref \<Rightarrow> 'f work \<times> 'f coord_sums \<Rightarrow> 'f work \<times> 'f coord_sums" where
  "member_step env node_group new_node n ws =
     (let w = fst ws; s = snd ws;
          w1 = w\<lparr>removal_node_set := List.insert n (removal_node_set w)\<rparr>;
          nd = node_objs (w_net w1) n;
          s1 = s\<lparr>osm_node_id_list := osm_node_id_list s @ [osm_node_id nd],
                 x_coord_sum := float_add env (x_coord_sum s) (fst (geometry nd)),
                 y_coord_sum := float_add env (y_coord_sum s) (snd (geometry nd)),
                 x_coord_xy_sum := float_add env (x_coord_xy_sum s) (fst (geometry_xy nd)),
                 y_coord_xy_sum := float_add env (y_coord_xy_sum s) (snd (geometry_xy nd))\<rparr>;
          w2 = fold (incoming_step node_group new_node)
                 (incoming_link_list (node_objs (w_net w1) n)) w1;
          w3 = fold (outgoing_step node_group new_node)
                 (outgoing_link_list (node_objs (w_net w2) n)) w2;
          net3 = w_net w3;
          w4 = w3\<lparr>w_net := net3\<lparr>node_objs := (node_objs net3)(new_node :=
                 (node_objs net3 new_node)\<lparr>osm_highway := osm_highway (node_objs net3 n)\<rparr>)\<rparr>\<rparr>
      in (w4, s1))"

text \<open>
  Lines 104-151: one group. The new Node object gets the next free address. The lookup
  \<^verbatim>\<open>node_group_ctrl_type_dict[main_node_id]\<close> cannot miss, since both dictionaries get
  their keys together (lines 96-97).
\<close>

definition process_group ::
  "'f py_env \<Rightarrow> (int \<times> bool) list \<Rightarrow> int \<times> nref list \<Rightarrow> 'f work \<Rightarrow> 'f work" where
  "process_group env node_group_ctrl_type_dict mg w =
     (let main = fst mg; node_group = snd mg in
      if length node_group < 2 then w
      else
        let net = w_net w;
            new_node = node_count net;
            nn0 = (Node env (max_node_id net))\<lparr>main_node_id := Some main\<rparr>;
            nn1 = (if map_of node_group_ctrl_type_dict main = Some True
                   then nn0\<lparr>ctrl_type := ''signal''\<rparr> else nn0);
            w0 = w\<lparr>w_net := net\<lparr>node_objs := (node_objs net)(new_node := nn1),
                                   node_count := node_count net + 1\<rparr>\<rparr>;
            ws = fold (member_step env node_group new_node) node_group
                   (w0, \<lparr>osm_node_id_list = [], x_coord_sum = float_zero env,
                         y_coord_sum = float_zero env, x_coord_xy_sum = float_zero env,
                         y_coord_xy_sum = float_zero env\<rparr>);
            net1 = w_net (fst ws); s = snd ws;
            nn2 = (node_objs net1 new_node)
                    \<lparr>osm_node_id := join_underscore (osm_node_id_list s),
                     geometry :=
                       (py_round env (float_div env (x_coord_sum s) (length node_group))
                          (lonlat_coord_precision env),
                        py_round env (float_div env (y_coord_sum s) (length node_group))
                          (lonlat_coord_precision env)),
                     geometry_xy :=
                       (py_round env (float_div env (x_coord_xy_sum s) (length node_group))
                          (local_coord_precision env),
                        py_round env (float_div env (y_coord_xy_sum s) (length node_group))
                          (local_coord_precision env))\<rparr>
        in (fst ws)\<lparr>w_net := net1
              \<lparr>node_objs := (node_objs net1)(new_node := nn2),
               node_dict := AList.update (node_id nn2) new_node (node_dict net1),
               max_node_id := max_node_id net1 + 1\<rparr>\<rparr>)"

text \<open>Lines 154-155: the deferred deletions.\<close>

fun delete_nodes :: "nref list \<Rightarrow> 'f network \<Rightarrow> error + 'f network" where
  "delete_nodes [] net = Inr net"
| "delete_nodes (r # rs) net =
     (case dict_del (node_id (node_objs net r)) (node_dict net) of
        Inl e \<Rightarrow> Inl e
      | Inr d \<Rightarrow> delete_nodes rs (net\<lparr>node_dict := d\<rparr>))"

fun delete_links :: "lref list \<Rightarrow> 'f network \<Rightarrow> error + 'f network" where
  "delete_links [] net = Inr net"
| "delete_links (l # ls) net =
     (case dict_del (link_id (link_objs net l)) (link_dict net) of
        Inl e \<Rightarrow> Inl e
      | Inr d \<Rightarrow> delete_links ls (net\<lparr>link_dict := d\<rparr>))"

text \<open>
  Lines 101-155 for a given dictionary of groups, and the whole function. The progress
  message of lines 86-87 does not touch the network and is left out. The order in
  which the groups are processed is the order of \<open>node_group_dict\<close>; it is a parameter
  of \<open>consolidate_groups\<close>, so that other orders can be compared.
\<close>

definition processed ::
  "'f py_env \<Rightarrow> (int \<times> bool) list \<Rightarrow> (int \<times> nref list) list \<Rightarrow> 'f network \<Rightarrow> 'f work" where
  "processed env cd gd net =
     fold (process_group env cd) gd \<lparr>w_net = net, removal_node_set = [], removal_link_set = []\<rparr>"

definition consolidate_groups ::
  "'f py_env \<Rightarrow> (int \<times> bool) list \<Rightarrow> (int \<times> nref list) list \<Rightarrow> 'f network
     \<Rightarrow> error + 'f network" where
  "consolidate_groups env cd gd net =
     (let w = processed env cd gd net in
      case delete_nodes (removal_node_set w) (w_net w) of
        Inl e \<Rightarrow> Inl e
      | Inr net2 \<Rightarrow> delete_links (removal_link_set w) net2)"

definition consolidateComplexIntersections ::
  "'f py_env \<Rightarrow> 'f network \<Rightarrow> bool \<Rightarrow> py_float \<Rightarrow> error + 'f network" where
  "consolidateComplexIntersections env network auto_identify int_buffer =
     (let net = (if auto_identify then identifyComplexIntersections network int_buffer
                 else network);
          dd = node_groups net
      in consolidate_groups env (snd dd) (fst dd) net)"

section \<open>Example networks\<close>

text \<open>The end-to-end scenario of the specification.\<close>

definition scenario_node :: "int \<Rightarrow> rat \<times> rat \<Rightarrow> lref list \<Rightarrow> lref list \<Rightarrow> rat node" where
  "scenario_node k p ins outs =
     \<lparr>node_id = k, osm_node_id = ''n'', osm_highway = ''primary'', main_node_id = None,
      ctrl_type = ''signal'', geometry = p, geometry_xy = p,
      incoming_link_list = ins, outgoing_link_list = outs\<rparr>"

definition scenario_net :: "rat network" where
  "scenario_net =
     \<lparr>node_objs = (\<lambda>r. if r = 0 then scenario_node 10 (0, 0) [] [0]
                        else if r = 1 then scenario_node 11 (2, 0) [0] [1]
                        else if r = 2 then scenario_node 12 (1, 1) [1] [2]
                        else scenario_node 13 (9, 9) [2] []),
      node_count = 4,
      link_objs = (\<lambda>l. if l = 0 then \<lparr>link_id = 100, from_node = 0, to_node = 1, link_length = Num 5\<rparr>
                        else if l = 1 then \<lparr>link_id = 101, from_node = 1, to_node = 2, link_length = Num 5\<rparr>
                        else \<lparr>link_id = 102, from_node = 2, to_node = 3, link_length = Num 50\<rparr>),
      node_dict = [(10, 0), (11, 1), (12, 2), (13, 3)],
      link_dict = [(100, 0), (101, 1), (102, 2)],
      max_node_id = 14,
      max_main_node_id = 0\<rparr>"

definition scenario_env :: "rat py_env" where
  "scenario_env =
     \<lparr>blank_node = scenario_node 0 (0, 0) [] [],
      float_zero = 0, float_add = (+), float_div = (\<lambda>x n. x / of_nat n),
      py_round = (\<lambda>x d. of_int (round (x * 10 ^ nat d)) / 10 ^ nat d),
      lonlat_coord_precision = 7, local_coord_precision = 2\<rparr>"

text \<open>
  Four signal-controlled nodes with the identifiers 6, 7, 8 and 9: a short link from the
  first to the second, a long link from the second to the third and a short link from
  the third to the fourth. The counter \<open>max_node_id\<close> is a parameter.
\<close>

definition pair_net :: "int \<Rightarrow> rat network" where
  "pair_net k =
     \<lparr>node_objs = (\<lambda>r. if r = 0 then scenario_node 6 (0, 0) [] [0]
                        else if r = 1 then scenario_node 7 (2, 0) [0] [1]
                        else if r = 2 then scenario_node 8 (7, 7) [1] [2]
                        else scenario_node 9 (9, 7) [2] []),
      node_count = 4,
      link_objs = (\<lambda>l. if l = 0 then \<lparr>link_id = 100, from_node = 0, to_node = 1, link_length = Num 5\<rparr>
                        else if l = 1 then \<lparr>link_id = 101, from_node = 1, to_node = 2, link_length = Num 50\<rparr>
                        else \<lparr>link_id = 102, from_node = 2, to_node = 3, link_length = Num 5\<rparr>),
      node_dict = [(6, 0), (7, 1), (8, 2), (9, 3)],
      link_dict = [(100, 0), (101, 1), (102, 2)],
      max_node_id = k,
      max_main_node_id = 0\<rparr>"

text \<open>
  The same network with the counter \<open>max_node_id\<close> at 10, where the fourth node already
  has the group identifier 0 while the counter \<open>max_main_node_id\<close> is still 0; and where
  the length of the long link is not a number.
\<close>

definition stale_net :: "rat network" where
  "stale_net =
     (pair_net 10)\<lparr>node_objs := (node_objs (pair_net 10))
        (3 := (scenario_node 9 (9, 7) [2] [])\<lparr>main_node_id := Some 0\<rparr>)\<rparr>"

definition nan_net :: "rat network" where
  "nan_net =
     (pair_net 10)\<lparr>link_objs := (link_objs (pair_net 10))
        (1 := \<lparr>link_id = 101, from_node = 1, to_node = 2, link_length = NaN\<rparr>)\<rparr>"

section \<open>Notions for the verification of consolidation\<close>

abbreviation lfrom :: "'f work \<Rightarrow> lref \<Rightarrow> nref" where
  "lfrom w l \<equiv> from_node (link_objs (w_net w) l)"

abbreviation lto :: "'f work \<Rightarrow> lref \<Rightarrow> nref" where
  "lto w l \<equiv> to_node (link_objs (w_net w) l)"

abbreviation inc_of :: "'f work \<Rightarrow> nref \<Rightarrow> lref list" where
  "inc_of w n \<equiv> incoming_link_list (node_objs (w_net w) n)"

abbreviation out_of :: "'f work \<Rightarrow> nref \<Rightarrow> lref list" where
  "out_of w n \<equiv> outgoing_link_list (node_objs (w_net w) n)"

text \<open>
  \<open>same_frame a b w\<close>: from \<open>b\<close> to \<open>w\<close> nothing has changed but endpoints of links, the
  removal sets, and the adjacency lists and the highway tag of the new node \<open>a\<close>.
\<close>

definition same_frame :: "nref \<Rightarrow> 'f work \<Rightarrow> 'f work \<Rightarrow> bool" where
  "same_frame a b w \<longleftrightarrow>
     (\<forall>r. r \<noteq> a \<longrightarrow> node_objs (w_net w) r = node_objs (w_net b) r)
     \<and> node_dict (w_net w) = node_dict (w_net b)
     \<and> link_dict (w_net w) = link_dict (w_net b)
     \<and> node_count (w_net w) = node_count (w_net b)
     \<and> max_node_id (w_net w) = max_node_id (w_net b)
     \<and> max_main_node_id (w_net w) = max_main_node_id (w_net b)
     \<and> (\<forall>l. link_id (link_objs (w_net w) l) = link_id (link_objs (w_net b) l))
     \<and> (\<forall>l. link_length (link_objs (w_net w) l) = link_length (link_objs (w_net b) l))
     \<and> node_id (node_objs (w_net w) a) = node_id (node_objs (w_net b) a)
     \<and> main_node_id (node_objs (w_net w) a) = main_node_id (node_objs (w_net b) a)
     \<and> ctrl_type (node_objs (w_net w) a) = ctrl_type (node_objs (w_net b) a)"

text \<open>
  \<open>link_safe G a b w\<close>: an endpoint differs from its value in \<open>b\<close> only if it has been
  moved to the new node \<open>a\<close>, and then the link has exactly that endpoint in the group;
  a link has been added to the removal set only if both its endpoints are in the group.
\<close>

definition link_ok :: "nref set \<Rightarrow> nref \<Rightarrow> 'f work \<Rightarrow> 'f work \<Rightarrow> lref \<Rightarrow> bool" where
  "link_ok G a b w l \<longleftrightarrow>
     (lto w l = lto b l
        \<or> lto w l = a \<and> lto b l \<in> G \<and> lfrom b l \<notin> G \<and> l \<in> set (inc_of b (lto b l)))
     \<and> (lfrom w l = lfrom b l
        \<or> lfrom w l = a \<and> lfrom b l \<in> G \<and> lto b l \<notin> G \<and> l \<in> set (out_of b (lfrom b l)))
     \<and> (l \<in> set (removal_link_set b) \<longrightarrow> l \<in> set (removal_link_set w))
     \<and> (l \<in> set (removal_link_set w) \<longrightarrow> l \<in> set (removal_link_set b)
        \<or> lfrom b l \<in> G \<and> lto b l \<in> G
          \<and> (l \<in> set (inc_of b (lto b l)) \<or> l \<in> set (out_of b (lfrom b l))))"

definition link_safe :: "nref set \<Rightarrow> nref \<Rightarrow> 'f work \<Rightarrow> 'f work \<Rightarrow> bool" where
  "link_safe G a b w \<longleftrightarrow> (\<forall>l. link_ok G a b w l)"

definition handled_in :: "nref set \<Rightarrow> nref \<Rightarrow> 'f work \<Rightarrow> lref \<Rightarrow> 'f work \<Rightarrow> bool" where
  "handled_in G a b l w \<longleftrightarrow>
     (if lfrom b l \<in> G then l \<in> set (removal_link_set w) else lto w l = a)"

definition handled_out :: "nref set \<Rightarrow> nref \<Rightarrow> 'f work \<Rightarrow> lref \<Rightarrow> 'f work \<Rightarrow> bool" where
  "handled_out G a b l w \<longleftrightarrow>
     (if lto b l \<in> G then l \<in> set (removal_link_set w) else lfrom w l = a)"

text \<open>
  \<open>adjacent_ok g b\<close>: in state \<open>b\<close> the adjacency lists of the members of the group hold
  links that end, respectively start, at that member.
\<close>

definition adjacent_ok :: "nref list \<Rightarrow> 'f work \<Rightarrow> bool" where
  "adjacent_ok g b \<longleftrightarrow>
     (\<forall>n\<in>set g. (\<forall>l\<in>set (inc_of b n). lto b l = n) \<and> (\<forall>l\<in>set (out_of b n). lfrom b l = n))"

definition add_member :: "'f py_env \<Rightarrow> 'f node \<Rightarrow> 'f coord_sums \<Rightarrow> 'f coord_sums" where
  "add_member env nd s =
     s\<lparr>osm_node_id_list := osm_node_id_list s @ [osm_node_id nd],
       x_coord_sum := float_add env (x_coord_sum s) (fst (geometry nd)),
       y_coord_sum := float_add env (y_coord_sum s) (snd (geometry nd)),
       x_coord_xy_sum := float_add env (x_coord_xy_sum s) (fst (geometry_xy nd)),
       y_coord_xy_sum := float_add env (y_coord_xy_sum s) (snd (geometry_xy nd))\<rparr>"

definition member_inv ::
  "nref list \<Rightarrow> nref \<Rightarrow> 'f work \<Rightarrow> nref set \<Rightarrow> 'f work \<Rightarrow> bool" where
  "member_inv g a b D w \<longleftrightarrow>
     same_frame a b w \<and> link_safe (set g) a b w
     \<and> (\<forall>n\<in>D. (\<forall>l\<in>set (inc_of b n). handled_in (set g) a b l w)
               \<and> (\<forall>l\<in>set (out_of b n). handled_out (set g) a b l w))
     \<and> set (removal_node_set w) = set (removal_node_set b) \<union> D"

definition sums0 :: "'f py_env \<Rightarrow> 'f coord_sums" where
  "sums0 env = \<lparr>osm_node_id_list = [], x_coord_sum = float_zero env,
                 y_coord_sum = float_zero env, x_coord_xy_sum = float_zero env,
                 y_coord_xy_sum = float_zero env\<rparr>"

definition group_sums :: "'f py_env \<Rightarrow> 'f network \<Rightarrow> nref list \<Rightarrow> 'f coord_sums" where
  "group_sums env net g = fold (\<lambda>n. add_member env (node_objs net n)) g (sums0 env)"

definition intra_links :: "'f work \<Rightarrow> nref list \<Rightarrow> lref set" where
  "intra_links w g =
     {l. lfrom w l \<in> set g \<and> lto w l \<in> set g
         \<and> (l \<in> set (inc_of w (lto w l)) \<or> l \<in> set (out_of w (lfrom w l)))}"

text \<open>
  Only a group with at least two members is consolidated. The new Node objects are
  allocated in the order in which the groups are processed, so the group with identifier
  \<open>m\<close> gets the address \<open>node_count + new_index gs m\<close> and the node identifier
  \<open>max_node_id + new_index gs m\<close>, counted from the network at the start.
\<close>

definition big :: "int \<times> nref list \<Rightarrow> bool" where
  "big mg \<longleftrightarrow> 2 \<le> length (snd mg)"

definition nbig :: "(int \<times> nref list) list \<Rightarrow> nat" where
  "nbig gs = length (filter big gs)"

definition new_index :: "(int \<times> nref list) list \<Rightarrow> int \<Rightarrow> nat" where
  "new_index gs m = nbig (takeWhile (\<lambda>mg. fst mg \<noteq> m) gs)"

definition new_ref :: "(int \<times> nref list) list \<Rightarrow> 'f network \<Rightarrow> int \<Rightarrow> nref" where
  "new_ref gs net m = node_count net + new_index gs m"

definition new_id :: "(int \<times> nref list) list \<Rightarrow> 'f network \<Rightarrow> int \<Rightarrow> int" where
  "new_id gs net m = max_node_id net + int (new_index gs m)"

text \<open>
  \<open>end_inv ps n0 cur e0 o0 lst\<close>, for one of the two endpoint fields: \<open>cur\<close> is its value
  now, \<open>e0\<close> its value at the start, \<open>o0\<close> the other endpoint at the start and \<open>lst\<close> the
  adjacency lists in which the loop finds the link. The field has changed only by being
  moved to the new node of a processed group that holds this endpoint and not the other
  one, and every such link that its member lists has been moved.
\<close>

definition end_inv ::
  "(int \<times> nref list) list \<Rightarrow> nat \<Rightarrow> (lref \<Rightarrow> nref) \<Rightarrow> (lref \<Rightarrow> nref) \<Rightarrow> (lref \<Rightarrow> nref)
     \<Rightarrow> (nref \<Rightarrow> lref list) \<Rightarrow> bool" where
  "end_inv ps n0 cur e0 o0 lst \<longleftrightarrow>
     (\<forall>l. cur l = e0 l
          \<or> (\<exists>mg\<in>set ps. big mg \<and> e0 l \<in> set (snd mg) \<and> o0 l \<notin> set (snd mg)
                \<and> cur l = n0 + new_index ps (fst mg)))
     \<and> (\<forall>mg\<in>set ps. big mg \<longrightarrow>
          (\<forall>l. e0 l \<in> set (snd mg) \<and> o0 l \<notin> set (snd mg) \<and> l \<in> set (lst (e0 l))
               \<longrightarrow> cur l = n0 + new_index ps (fst mg)))"

definition registered :: "'f network \<Rightarrow> nref set" where
  "registered net = snd ` set (node_dict net)"

text \<open>
  \<open>valid_groups\<close>: the keys of the group dictionary are distinct, and a group holds
  registered nodes that carry the group's identifier.
\<close>

definition valid_groups :: "'f network \<Rightarrow> (int \<times> nref list) list \<Rightarrow> bool" where
  "valid_groups net gs \<longleftrightarrow>
     distinct (map fst gs)
     \<and> (\<forall>mg\<in>set gs. \<forall>r\<in>set (snd mg).
           r \<in> registered net \<and> main_node_id (node_objs net r) = Some (fst mg))"

text \<open>
  \<open>adjacency_sound\<close>: the incoming list of a registered node holds links that end at
  it, its outgoing list links that start at it. \<open>store_ok\<close>: the registered nodes are
  allocated objects.
\<close>

definition adjacency_sound :: "'f network \<Rightarrow> bool" where
  "adjacency_sound net \<longleftrightarrow>
     (\<forall>r\<in>registered net.
        (\<forall>l\<in>set (incoming_link_list (node_objs net r)). to_node (link_objs net l) = r)
        \<and> (\<forall>l\<in>set (outgoing_link_list (node_objs net r)). from_node (link_objs net l) = r))"

definition store_ok :: "'f network \<Rightarrow> bool" where
  "store_ok net \<longleftrightarrow> (\<forall>r\<in>registered net. r < node_count net)"

definition start_work :: "'f network \<Rightarrow> 'f work" where
  "start_work net = \<lparr>w_net = net, removal_node_set = [], removal_link_set = []\<rparr>"

definition register_new :: "int \<Rightarrow> nat \<Rightarrow> nat \<Rightarrow> (int \<times> nref) list \<Rightarrow> (int \<times> nref) list" where
  "register_new k0 n0 n d = fold (\<lambda>i. AList.update (k0 + int i) (n0 + i)) [0..<n] d"

definition group_geometry :: "'f py_env \<Rightarrow> 'f network \<Rightarrow> nref list \<Rightarrow> 'f \<times> 'f" where
  "group_geometry env net g =
     (py_round env (float_div env (x_coord_sum (group_sums env net g)) (length g))
        (lonlat_coord_precision env),
      py_round env (float_div env (y_coord_sum (group_sums env net g)) (length g))
        (lonlat_coord_precision env))"

definition group_geometry_xy :: "'f py_env \<Rightarrow> 'f network \<Rightarrow> nref list \<Rightarrow> 'f \<times> 'f" where
  "group_geometry_xy env net g =
     (py_round env (float_div env (x_coord_xy_sum (group_sums env net g)) (length g))
        (local_coord_precision env),
      py_round env (float_div env (y_coord_xy_sum (group_sums env net g)) (length g))
        (local_coord_precision env))"

definition new_nodes_ok ::
  "'f py_env \<Rightarrow> 'f network \<Rightarrow> (int \<times> nref list) list \<Rightarrow> 'f work \<Rightarrow> bool" where
  "new_nodes_ok env s0 ps w \<longleftrightarrow>
     (\<forall>mg\<in>set ps. big mg \<longrightarrow>
        main_node_id (node_objs (w_net w) (new_ref ps s0 (fst mg))) = Some (fst mg)
        \<and> node_id (node_objs (w_net w) (new_ref ps s0 (fst mg))) = new_id ps s0 (fst mg)
        \<and> geometry (node_objs (w_net w) (new_ref ps s0 (fst mg))) = group_geometry env s0 (snd mg)
        \<and> geometry_xy (node_objs (w_net w) (new_ref ps s0 (fst mg)))
            = group_geometry_xy env s0 (snd mg))"

definition groups_inv ::
  "'f py_env \<Rightarrow> 'f network \<Rightarrow> (int \<times> nref list) list \<Rightarrow> 'f work \<Rightarrow> bool" where
  "groups_inv env s0 ps w \<longleftrightarrow>
     node_count (w_net w) = node_count s0 + nbig ps
     \<and> max_node_id (w_net w) = max_node_id s0 + int (nbig ps)
     \<and> max_main_node_id (w_net w) = max_main_node_id s0
     \<and> link_dict (w_net w) = link_dict s0
     \<and> (\<forall>r<node_count s0. node_objs (w_net w) r = node_objs s0 r)
     \<and> (\<forall>l. link_id (link_objs (w_net w) l) = link_id (link_objs s0 l))
     \<and> end_inv ps (node_count s0) (lto w) (lto (start_work s0)) (lfrom (start_work s0))
          (inc_of (start_work s0))
     \<and> end_inv ps (node_count s0) (lfrom w) (lfrom (start_work s0)) (lto (start_work s0))
          (out_of (start_work s0))
     \<and> set (removal_link_set w) = (\<Union>mg\<in>{mg \<in> set ps. big mg}. intra_links (start_work s0) (snd mg))
     \<and> set (removal_node_set w) = (\<Union>mg\<in>{mg \<in> set ps. big mg}. set (snd mg))
     \<and> node_dict (w_net w) = register_new (max_node_id s0) (node_count s0) (nbig ps) (node_dict s0)
     \<and> new_nodes_ok env s0 ps w"

definition sets_distinct :: "'f work \<Rightarrow> bool" where
  "sets_distinct w \<longleftrightarrow> distinct (removal_node_set w) \<and> distinct (removal_link_set w)"

text \<open>
  The group of an identifier, in the specification's words: the registered nodes that
  carry it, in the order of the node dictionary.
\<close>

definition members_of :: "'f network \<Rightarrow> (int \<times> nref) list \<Rightarrow> int \<Rightarrow> nref list" where
  "members_of net xs m = filter (\<lambda>r. main_node_id (node_objs net r) = Some m) (map snd xs)"

definition group_of :: "'f network \<Rightarrow> int \<Rightarrow> nref list" where
  "group_of net m = members_of net (node_dict net) m"

definition groups_ok :: "'f network \<Rightarrow> (int \<times> nref) list \<Rightarrow> (int \<times> nref list) list \<Rightarrow> bool" where
  "groups_ok net xs gd \<longleftrightarrow>
     distinct (map fst gd)
     \<and> (\<forall>m g. (m, g) \<in> set gd \<longleftrightarrow> g = members_of net xs m \<and> g \<noteq> [])"

text \<open>
  \<open>dicts_keyed\<close>: the keys of the two dictionaries are distinct (as in any dictionary)
  and are the identifiers of the objects they map to.
  \<open>adjacency_in_dict\<close>: the adjacency lists of registered nodes hold registered links.
  \<open>adjacency_complete\<close>: every registered link is in the outgoing list of its
  \<open>from_node\<close> and in the incoming list of its \<open>to_node\<close>.
  \<open>endpoints_registered\<close>: the endpoints of every registered link are registered nodes.
\<close>

definition dicts_keyed :: "'f network \<Rightarrow> bool" where
  "dicts_keyed net \<longleftrightarrow>
     distinct (map fst (node_dict net))
     \<and> (\<forall>kr\<in>set (node_dict net). node_id (node_objs net (snd kr)) = fst kr)
     \<and> distinct (map fst (link_dict net))
     \<and> (\<forall>kl\<in>set (link_dict net). link_id (link_objs net (snd kl)) = fst kl)"

definition adjacency_in_dict :: "'f network \<Rightarrow> bool" where
  "adjacency_in_dict net \<longleftrightarrow>
     (\<forall>r\<in>registered net.
        set (incoming_link_list (node_objs net r)) \<subseteq> snd ` set (link_dict net)
        \<and> set (outgoing_link_list (node_objs net r)) \<subseteq> snd ` set (link_dict net))"

definition adjacency_complete :: "'f network \<Rightarrow> bool" where
  "adjacency_complete net \<longleftrightarrow>
     (\<forall>kl\<in>set (link_dict net).
        snd kl \<in> set (outgoing_link_list (node_objs net (from_node (link_objs net (snd kl)))))
        \<and> snd kl \<in> set (incoming_link_list (node_objs net (to_node (link_objs net (snd kl))))))"

definition endpoints_registered :: "'f network \<Rightarrow> bool" where
  "endpoints_registered net \<longleftrightarrow>
     (\<forall>kl\<in>set (link_dict net).
        from_node (link_objs net (snd kl)) \<in> registered net
        \<and> to_node (link_objs net (snd kl)) \<in> registered net)"

definition well_formed :: "'f network \<Rightarrow> bool" where
  "well_formed net \<longleftrightarrow>
     dicts_keyed net \<and> store_ok net \<and> adjacency_sound net \<and> adjacency_in_dict net
     \<and> adjacency_complete net \<and> endpoints_registered net"

text \<open>The nodes that are merged away and the links inside a consolidated group.\<close>

definition merged_nodes :: "(int \<times> nref list) list \<Rightarrow> nref set" where
  "merged_nodes gs = (\<Union>mg\<in>{mg \<in> set gs. big mg}. set (snd mg))"

definition merged_links :: "'f network \<Rightarrow> (int \<times> nref list) list \<Rightarrow> lref set" where
  "merged_links net gs = (\<Union>mg\<in>{mg \<in> set gs. big mg}. intra_links (start_work net) (snd mg))"

text \<open>The network on which the grouping runs: after detection, if it was asked for.\<close>

definition detected :: "'f network \<Rightarrow> bool \<Rightarrow> py_float \<Rightarrow> 'f network" where
  "detected network auto_identify int_buffer =
     (if auto_identify then identifyComplexIntersections network int_buffer else network)"

definition group_dict :: "'f network \<Rightarrow> (int \<times> nref list) list" where
  "group_dict net = fst (node_groups net)"

text \<open>The network that consolidation returns on a well-formed input.\<close>

definition consolidated ::
  "'f py_env \<Rightarrow> (int \<times> bool) list \<Rightarrow> (int \<times> nref list) list \<Rightarrow> 'f network \<Rightarrow> 'f network" where
  "consolidated env cd gs s0 =
     (w_net (processed env cd gs s0))
       \<lparr>node_dict := filter (\<lambda>kv. fst kv \<notin> (\<lambda>r. node_id (node_objs s0 r)) ` merged_nodes gs)
            (register_new (max_node_id s0) (node_count s0) (nbig gs) (node_dict s0)),
        link_dict := filter (\<lambda>kv. snd kv \<notin> merged_links s0 gs) (link_dict s0)\<rparr>"

text \<open>A link is inside a consolidated group, in terms of the network alone.\<close>

definition in_group :: "'f network \<Rightarrow> int \<Rightarrow> nref \<Rightarrow> bool" where
  "in_group net m r \<longleftrightarrow> r \<in> set (group_of net m)"


text \<open>
  \<open>fresh_ids\<close>: none of the identifiers that the loop will mint, \<open>max_node_id\<close> and its
  successors, one for each group of at least two members, is a key of the node
  dictionary.
\<close>

definition fresh_ids :: "'f network \<Rightarrow> (int \<times> nref list) list \<Rightarrow> bool" where
  "fresh_ids net gs \<longleftrightarrow>
     (\<forall>i\<in>set [0..<nbig gs]. max_node_id net + int i \<notin> fst ` set (node_dict net))"

section \<open>Candidate groups\<close>

lemma float_le_not_gt: "float_le a b \<Longrightarrow> \<not> float_gt a b"
  by (cases a; cases b) simp_all

lemma float_le_iff_not_gt: "a \<noteq> NaN \<Longrightarrow> b \<noteq> NaN \<Longrightarrow> float_le a b \<longleftrightarrow> \<not> float_gt a b"
  by (cases a; cases b) auto

lemma scan_link_contributes:
  "scan_link int_buffer net l (gl, gs) =
     (if contributes int_buffer net l then (gl @ [link_group net l], gs @ [1]) else (gl, gs))"
  by (auto simp: scan_link_def contributes_def link_group_def Let_def)

lemma fold_scan_link:
  "fold (scan_link int_buffer net) ls (gl, gs) =
     (gl @ map (link_group net) (filter (contributes int_buffer net) ls),
      gs @ replicate (length (filter (contributes int_buffer net) ls)) 1)"
proof (induction ls arbitrary: gl gs)
  case Nil
  show ?case by simp
next
  case (Cons l ls)
  show ?case
    by (simp add: scan_link_contributes Cons.IH replicate_app_Cons_same)
qed

lemma candidate_groups_eq:
  "candidate_groups int_buffer net =
     (map (link_group net) (filter (contributes int_buffer net) (map snd (link_dict net))),
      replicate (length (filter (contributes int_buffer net) (map snd (link_dict net)))) 1)"
  by (simp add: candidate_groups_def fold_scan_link)

lemma scan_link_spec:
  assumes "link_length (link_objs net l) \<noteq> NaN" "int_buffer \<noteq> NaN"
  shows "contributes int_buffer net l \<longleftrightarrow> spec_contributes int_buffer net l"
  using float_le_iff_not_gt [OF assms] by (simp add: contributes_def spec_contributes_def)

lemma filter_contributes_spec:
  assumes "int_buffer \<noteq> NaN" "\<forall>l\<in>set ls. link_length (link_objs net l) \<noteq> NaN"
  shows "filter (contributes int_buffer net) ls = filter (spec_contributes int_buffer net) ls"
  using assms by (intro filter_cong) (simp_all add: scan_link_spec)

text \<open>
  Claim C5, which fails as it is stated. The test of line 34 skips a link whose length
  is greater than the threshold, and a comparison with a float that is not a number is
  false. A link
  between two ungrouped signal-controlled nodes whose length is not a number, or any such
  link under a threshold that is not a number, contributes its candidate group, although
  its length is not at most the threshold.
\<close>

theorem nan_length_counterexample:
  "\<not> float_le (link_length (link_objs nan_net 1)) (Num 10)
   \<and> \<not> spec_contributes (Num 10) nan_net 1
   \<and> scan_link (Num 10) nan_net 1 ([], []) = ([[2, 1]], [1])
   \<and> candidate_groups (Num 10) nan_net = ([[1, 0], [2, 1], [3, 2]], [1, 1, 1])
   \<and> \<not> float_le (link_length (link_objs (pair_net 10) 1)) NaN
   \<and> \<not> spec_contributes NaN (pair_net 10) 1
   \<and> scan_link NaN (pair_net 10) 1 ([], []) = ([[2, 1]], [1])"
  by code_simp

text \<open>
  Claim C5, amended. In the loop over the links, a link appends its candidate group
  \<open>{from_node, to_node}\<close> (and an active status) exactly when its length is not greater
  than the threshold, both endpoints have no group identifier and both are
  signal-controlled; otherwise the lists are left as they are. Hence the candidate list is
  the list of the groups of the contributing links, in dictionary order, all active. When
  neither the length nor the threshold is not-a-number, the first condition is that the
  length is at most the threshold, as the specification has it. The group holds the two
  endpoints, and one element for a self-loop.
\<close>

theorem candidate_group_iff:
  "scan_link int_buffer net l (gl, gs) =
     (if contributes int_buffer net l then (gl @ [link_group net l], gs @ [1]) else (gl, gs))
   \<and> candidate_groups int_buffer net =
     (map (link_group net) (filter (contributes int_buffer net) (map snd (link_dict net))),
      replicate (length (filter (contributes int_buffer net) (map snd (link_dict net)))) 1)
   \<and> (link_length (link_objs net l) \<noteq> NaN \<and> int_buffer \<noteq> NaN \<longrightarrow>
        scan_link int_buffer net l (gl, gs) =
          (if spec_contributes int_buffer net l then (gl @ [link_group net l], gs @ [1])
           else (gl, gs)))
   \<and> (int_buffer \<noteq> NaN
        \<and> (\<forall>kl\<in>set (link_dict net). link_length (link_objs net (snd kl)) \<noteq> NaN) \<longrightarrow>
        candidate_groups int_buffer net =
          (map (link_group net) (filter (spec_contributes int_buffer net) (map snd (link_dict net))),
           replicate (length (filter (spec_contributes int_buffer net) (map snd (link_dict net)))) 1))
   \<and> set (py_set2 a b) = {a, b} \<and> py_set2 a a = [a]"
proof -
  have 1: "scan_link int_buffer net l (gl, gs) =
     (if contributes int_buffer net l then (gl @ [link_group net l], gs @ [1]) else (gl, gs))"
    by (rule scan_link_contributes)
  have 2: "candidate_groups int_buffer net =
     (map (link_group net) (filter (contributes int_buffer net) (map snd (link_dict net))),
      replicate (length (filter (contributes int_buffer net) (map snd (link_dict net)))) 1)"
    by (rule candidate_groups_eq)
  have 3: "scan_link int_buffer net l (gl, gs) =
          (if spec_contributes int_buffer net l then (gl @ [link_group net l], gs @ [1])
           else (gl, gs))"
    if "link_length (link_objs net l) \<noteq> NaN \<and> int_buffer \<noteq> NaN"
    using that by (simp add: scan_link_contributes scan_link_spec)
  have 4: "candidate_groups int_buffer net =
          (map (link_group net) (filter (spec_contributes int_buffer net) (map snd (link_dict net))),
           replicate (length (filter (spec_contributes int_buffer net) (map snd (link_dict net)))) 1)"
    if h: "int_buffer \<noteq> NaN
        \<and> (\<forall>kl\<in>set (link_dict net). link_length (link_objs net (snd kl)) \<noteq> NaN)"
  proof -
    from h have "filter (contributes int_buffer net) (map snd (link_dict net))
        = filter (spec_contributes int_buffer net) (map snd (link_dict net))"
      by (intro filter_contributes_spec) auto
    then show ?thesis by (simp add: candidate_groups_eq)
  qed
  have 5: "set (py_set2 a b) = {a, b} \<and> py_set2 a a = [a]"
    by (auto simp: py_set2_def)
  from 1 2 3 4 5 show ?thesis by blast
qed

theorem candidate_group_iff_witness:
  "link_length (link_objs scenario_net 0) \<noteq> NaN \<and> Num 10 \<noteq> NaN
   \<and> link_length (link_objs scenario_net 1) \<noteq> NaN
   \<and> link_length (link_objs scenario_net 2) \<noteq> NaN
   \<and> link_dict scenario_net = [(100, 0), (101, 1), (102, 2)]
   \<and> spec_contributes (Num 10) scenario_net 0
   \<and> spec_contributes (Num 10) scenario_net 1
   \<and> \<not> spec_contributes (Num 10) scenario_net 2
   \<and> link_group scenario_net 0 = [1, 0]
   \<and> link_group scenario_net 1 = [2, 1]
   \<and> scan_link (Num 10) scenario_net 0 ([], []) = ([[1, 0]], [1])
   \<and> candidate_groups (Num 10) scenario_net = ([[1, 0], [2, 1]], [1, 1])"
proof -
  have h: "link_length (link_objs scenario_net 0) \<noteq> NaN" "Num 10 \<noteq> NaN"
    "link_length (link_objs scenario_net 1) \<noteq> NaN"
    "link_length (link_objs scenario_net 2) \<noteq> NaN"
    "link_dict scenario_net = [(100, 0), (101, 1), (102, 2)]"
    by (simp_all add: scenario_net_def)
  have c: "spec_contributes (Num 10) scenario_net 0"
    "spec_contributes (Num 10) scenario_net (Suc 0)"
    "\<not> spec_contributes (Num 10) scenario_net 2"
    "link_group scenario_net 0 = [Suc 0, 0]"
    "link_group scenario_net (Suc 0) = [2, Suc 0]"
    by code_simp+
  have q: "\<forall>kl\<in>set (link_dict scenario_net). link_length (link_objs scenario_net (snd kl)) \<noteq> NaN"
    using h by simp
  have s: "scan_link (Num 10) scenario_net 0 ([], []) =
      (if spec_contributes (Num 10) scenario_net 0
       then ([] @ [link_group scenario_net 0], [] @ [1]) else ([], []))"
    using candidate_group_iff [of "Num 10" scenario_net 0 "[]" "[]" 0 0] h(1,2) by blast
  have g: "candidate_groups (Num 10) scenario_net =
      (map (link_group scenario_net)
         (filter (spec_contributes (Num 10) scenario_net) (map snd (link_dict scenario_net))),
       replicate (length (filter (spec_contributes (Num 10) scenario_net)
         (map snd (link_dict scenario_net)))) 1)"
    using candidate_group_iff [of "Num 10" scenario_net 0 "[]" "[]" 0 0] h(2) q by blast
  from s g h c show ?thesis by simp
qed

section \<open>The merge loop\<close>

lemma inner_step_cases:
  "inner_step i j (gl, gs) = (gl, gs) \<or>
   (gs ! j \<noteq> 0 \<and> i \<noteq> j \<and> set (gl ! i) \<inter> set (gl ! j) \<noteq> {}
    \<and> inner_step i j (gl, gs) = (gl[i := List.union (gl ! j) (gl ! i)], gs[j := 0]))"
  by (auto simp: inner_step_def filter_empty_conv)

lemma inner_step_covers:
  assumes c: "covers gl0 gg" and i: "i < length gl0" and j: "j < length gl0"
    and act: "snd gg ! i \<noteq> 0"
  shows "covers gl0 (inner_step i j gg) \<and> snd (inner_step i j gg) ! i \<noteq> 0"
proof (cases gg)
  case (Pair gl gs)
  from inner_step_cases [of i j gl gs] show ?thesis
  proof
    assume "inner_step i j (gl, gs) = (gl, gs)"
    with c act Pair show ?thesis by simp
  next
    assume m: "gs ! j \<noteq> 0 \<and> i \<noteq> j \<and> set (gl ! i) \<inter> set (gl ! j) \<noteq> {}
      \<and> inner_step i j (gl, gs) = (gl[i := List.union (gl ! j) (gl ! i)], gs[j := 0])"
    let ?gl = "gl[i := List.union (gl ! j) (gl ! i)]" and ?gs = "gs[j := 0]"
    from c Pair have len: "length gl = length gl0" "length gs = length gl0"
      by (simp_all add: covers_def)
    have acti: "?gs ! i \<noteq> 0" using m act Pair by simp
    have gli: "set (?gl ! i) = set (gl ! j) \<union> set (gl ! i)" using i len by simp
    have cov: "\<exists>a<length gl0. ?gs ! a \<noteq> 0 \<and> set (gl0 ! k) \<subseteq> set (?gl ! a)" if k: "k < length gl0" for k
    proof -
      from c Pair k obtain a where a: "a < length gl0" "gs ! a \<noteq> 0" "set (gl0 ! k) \<subseteq> set (gl ! a)"
        by (auto simp: covers_def)
      show ?thesis
      proof (cases "a = j \<or> a = i")
        case True
        with a gli have "set (gl0 ! k) \<subseteq> set (?gl ! i)" by auto
        with acti i show ?thesis by blast
      next
        case False
        with a have "?gs ! a \<noteq> 0" "set (gl0 ! k) \<subseteq> set (?gl ! a)" by simp_all
        with a(1) show ?thesis by blast
      qed
    qed
    have sub: "set (?gl ! a) \<subseteq> \<Union> (set ` set gl0)" if a: "a < length gl0" for a
    proof -
      from c Pair i j a have "set (gl ! i) \<subseteq> \<Union> (set ` set gl0)" "set (gl ! j) \<subseteq> \<Union> (set ` set gl0)"
        "set (gl ! a) \<subseteq> \<Union> (set ` set gl0)"
        by (simp_all add: covers_def)
      then show ?thesis using gli by (cases "a = i") auto
    qed
    from cov sub len acti m Pair show ?thesis by (simp add: covers_def)
  qed
qed

lemma inner_fold_covers:
  assumes "covers gl0 gg" "i < length gl0" "\<forall>j\<in>set js. j < length gl0" "snd gg ! i \<noteq> 0"
  shows "covers gl0 (fold (inner_step i) js gg) \<and> snd (fold (inner_step i) js gg) ! i \<noteq> 0"
  using assms
proof (induction js arbitrary: gg)
  case Nil
  then show ?case by simp
next
  case (Cons j js)
  from inner_step_covers [of gl0 gg i j] Cons.prems
  have "covers gl0 (inner_step i j gg) \<and> snd (inner_step i j gg) ! i \<noteq> 0" by simp
  with Cons.IH [of "inner_step i j gg"] Cons.prems show ?case by simp
qed

lemma outer_step_covers:
  assumes "covers gl0 gg" "i < length gl0"
  shows "covers gl0 (outer_step i gg)"
  using assms inner_fold_covers [of gl0 gg i "[0..<length (fst gg)]"]
  by (simp add: outer_step_def covers_def)

lemma outer_fold_covers:
  assumes "covers gl0 gg" "\<forall>i\<in>set is. i < length gl0"
  shows "covers gl0 (fold outer_step is gg)"
  using assms
  by (induction "is" arbitrary: gg) (simp_all add: outer_step_covers)

lemma merge_pass_covers: "covers gl0 gg \<Longrightarrow> covers gl0 (merge_pass gg)"
  using outer_fold_covers [of gl0 gg "[0..<length (fst gg)]"]
  by (simp add: merge_pass_def covers_def)

lemma merge_loop_unfold:
  "merge_loop gg n =
     (if n = sum_list (snd (merge_pass gg)) then merge_pass gg
      else merge_loop (merge_pass gg) (sum_list (snd (merge_pass gg))))"
  by (subst merge_loop.simps) (simp add: Let_def)

declare merge_loop.simps [simp del]

lemma merge_loop_covers: "covers gl0 gg \<Longrightarrow> covers gl0 (merge_loop gg n)"
proof (induction gg n rule: merge_loop.induct)
  case (1 gg n)
  show ?case
  proof (cases "n = sum_list (snd (merge_pass gg))")
    case True
    with "1.prems" show ?thesis by (subst merge_loop_unfold) (simp add: merge_pass_covers)
  next
    case False
    with "1.IH" [OF refl refl False] "1.prems" show ?thesis
      by (subst merge_loop_unfold) (simp add: merge_pass_covers)
  qed
qed

lemma covers_initial:
  "length gs = length gl \<Longrightarrow> \<forall>i<length gl. gs ! i \<noteq> 0 \<Longrightarrow> covers gl (gl, gs)"
  by (auto simp: covers_def intro: nth_mem)

text \<open>A pass that merges nothing leaves the active groups pairwise disjoint.\<close>

lemma outer_step_fix:
  assumes len: "length (snd gg) = length (fst gg)"
    and eq: "sum_list (snd (outer_step i gg)) = sum_list (snd gg)"
  shows "outer_step i gg = gg"
proof (cases "snd gg ! i = 0")
  case True
  then show ?thesis by (simp add: outer_step_def)
next
  case False
  with eq have e: "sum_list (snd (fold (inner_step i) [0..<length (fst gg)] gg)) = sum_list (snd gg)"
    by (simp add: outer_step_def)
  have "\<forall>j\<in>set [0..<length (fst gg)]. inner_step i j gg = gg"
  proof (rule fold_potential_fix [where \<phi> = "\<lambda>gg. sum_list (snd gg)"
        and I = "\<lambda>g. length (snd g) = length (fst gg)"])
    show "\<And>x s. sum_list (snd (inner_step i x s)) \<le> sum_list (snd s)" by (rule inner_step_le)
    show "\<And>x s. x \<in> set [0..<length (fst gg)] \<Longrightarrow> length (snd s) = length (fst gg) \<Longrightarrow>
        sum_list (snd (inner_step i x s)) = sum_list (snd s) \<Longrightarrow> inner_step i x s = s"
      by (rule inner_step_fix) simp_all
    show "length (snd gg) = length (fst gg)" by (rule len)
    show "sum_list (snd (fold (inner_step i) [0..<length (fst gg)] gg)) = sum_list (snd gg)" by (rule e)
  qed
  then have "fold (inner_step i) [0..<length (fst gg)] gg = gg" by (rule fold_fixed)
  with False show ?thesis by (simp add: outer_step_def)
qed

lemma merge_pass_fix:
  assumes len: "length (snd gg) = length (fst gg)"
    and eq: "sum_list (snd (merge_pass gg)) = sum_list (snd gg)"
  shows "\<forall>i<length (fst gg). outer_step i gg = gg"
proof -
  have "\<forall>i\<in>set [0..<length (fst gg)]. outer_step i gg = gg"
  proof (rule fold_potential_fix [where \<phi> = "\<lambda>gg. sum_list (snd gg)"
        and I = "\<lambda>g. length (snd g) = length (fst g)"])
    show "\<And>x s. sum_list (snd (outer_step x s)) \<le> sum_list (snd s)" by (rule outer_step_le)
    show "\<And>x s. x \<in> set [0..<length (fst gg)] \<Longrightarrow> length (snd s) = length (fst s) \<Longrightarrow>
        sum_list (snd (outer_step x s)) = sum_list (snd s) \<Longrightarrow> outer_step x s = s"
      by (rule outer_step_fix)
    show "length (snd gg) = length (fst gg)" by (rule len)
    show "sum_list (snd (fold outer_step [0..<length (fst gg)] gg)) = sum_list (snd gg)"
      using eq by (simp add: merge_pass_def)
  qed
  then show ?thesis by simp
qed

lemma outer_step_fixed_disjoint:
  assumes len: "length (snd gg) = length (fst gg)"
    and fx: "outer_step i gg = gg"
    and i: "i < length (fst gg)" and j: "j < length (fst gg)"
    and act: "i \<noteq> j" "snd gg ! i \<noteq> 0" "snd gg ! j \<noteq> 0"
  shows "set (fst gg ! i) \<inter> set (fst gg ! j) = {}"
proof -
  from fx act have e: "fold (inner_step i) [0..<length (fst gg)] gg = gg"
    by (simp add: outer_step_def)
  have "\<forall>j\<in>set [0..<length (fst gg)]. inner_step i j gg = gg"
  proof (rule fold_potential_fix [where \<phi> = "\<lambda>gg. sum_list (snd gg)"
        and I = "\<lambda>g. length (snd g) = length (fst gg)"])
    show "\<And>x s. sum_list (snd (inner_step i x s)) \<le> sum_list (snd s)" by (rule inner_step_le)
    show "\<And>x s. x \<in> set [0..<length (fst gg)] \<Longrightarrow> length (snd s) = length (fst gg) \<Longrightarrow>
        sum_list (snd (inner_step i x s)) = sum_list (snd s) \<Longrightarrow> inner_step i x s = s"
      by (rule inner_step_fix) simp_all
    show "length (snd gg) = length (fst gg)" by (rule len)
    show "sum_list (snd (fold (inner_step i) [0..<length (fst gg)] gg)) = sum_list (snd gg)"
      using e by simp
  qed
  with j have st: "inner_step i j gg = gg" by simp
  obtain gl gs where gg: "gg = (gl, gs)" by (cases gg)
  show ?thesis
  proof (rule ccontr)
    assume "set (fst gg ! i) \<inter> set (fst gg ! j) \<noteq> {}"
    with gg act have "inner_step i j (gl, gs) = (gl[i := List.union (gl ! j) (gl ! i)], gs[j := 0])"
      by (auto simp: inner_step_def filter_empty_conv)
    with st gg have "gs[j := 0] = gs" by simp
    then have "gs[j := 0] ! j = gs ! j" by simp
    with j len gg act show False by simp
  qed
qed

lemma merge_loop_disjoint:
  "length (snd gg) = length (fst gg) \<Longrightarrow> n = sum_list (snd gg) \<Longrightarrow> disjoint_active (merge_loop gg n)"
proof (induction gg n rule: merge_loop.induct)
  case (1 gg n)
  show ?case
  proof (cases "n = sum_list (snd (merge_pass gg))")
    case True
    with "1.prems" have eq: "sum_list (snd (merge_pass gg)) = sum_list (snd gg)" by simp
    from merge_pass_fix [OF "1.prems"(1) eq]
    have fx: "\<forall>i<length (fst gg). outer_step i gg = gg" .
    then have "\<forall>i\<in>set [0..<length (fst gg)]. outer_step i gg = gg" by simp
    then have "merge_pass gg = gg" unfolding merge_pass_def by (rule fold_fixed)
    moreover have "disjoint_active gg"
      unfolding disjoint_active_def
      using outer_step_fixed_disjoint [OF "1.prems"(1)] fx by blast
    ultimately show ?thesis using True by (subst merge_loop_unfold) simp
  next
    case False
    have "disjoint_active (merge_loop (merge_pass gg) (sum_list (snd (merge_pass gg))))"
      by (rule "1.IH" [OF refl refl False]) (simp_all add: merge_pass_length "1.prems")
    with False show ?thesis by (subst merge_loop_unfold) simp
  qed
qed

section \<open>Assignment of the group identifiers\<close>

lemma active_before_Suc:
  "active_before gs (Suc k) = active_before gs k + (if gs ! k \<noteq> 0 then 1 else 0)"
  by (simp add: active_before_def)

lemma active_before_mono: "i \<le> k \<Longrightarrow> active_before gs i \<le> active_before gs k"
  by (induction k) (auto simp: active_before_Suc le_Suc_eq)

lemma active_before_less:
  "i < k \<Longrightarrow> gs ! i \<noteq> 0 \<Longrightarrow> active_before gs i < active_before gs k"
  using active_before_mono [of "Suc i" k gs] by (simp add: active_before_Suc)

lemma stamp_fold_objs:
  "node_objs (fold (stamp m) rs net) r =
     (if r \<in> set rs then (node_objs net r)\<lparr>main_node_id := Some m\<rparr> else node_objs net r)"
  by (induction rs arbitrary: net) (auto simp: stamp_def)

lemma stamp_fold_fields:
  "link_objs (fold (stamp m) rs net) = link_objs net"
  "node_dict (fold (stamp m) rs net) = node_dict net"
  "link_dict (fold (stamp m) rs net) = link_dict net"
  "node_count (fold (stamp m) rs net) = node_count net"
  "max_node_id (fold (stamp m) rs net) = max_node_id net"
  "max_main_node_id (fold (stamp m) rs net) = max_main_node_id net"
  "network.more (fold (stamp m) rs net) = network.more net"
  by (induction rs arbitrary: net) (simp_all add: stamp_def)

lemma stamp_fold_frame:
  "fold (stamp m) rs net = net\<lparr>node_objs := node_objs (fold (stamp m) rs net)\<rparr>"
  by (rule network.equality) (simp_all add: stamp_fold_fields)

lemma assigned_Suc:
  "assigned gg (Suc k) net = assign_step (fst gg) (snd gg) k (assigned gg k net)"
  by (simp add: assigned_def)

lemma assigned_snd:
  "snd (assigned gg k net) = max_main_node_id net + int (active_before (snd gg) k)"
  by (induction k) (simp_all add: assigned_Suc assign_step_def active_before_Suc, simp add: assigned_def active_before_def)

lemma assigned_frame:
  "fst (assigned gg k net) = net\<lparr>node_objs := node_objs (fst (assigned gg k net))\<rparr>"
proof (induction k)
  case 0
  show ?case by (simp add: assigned_def)
next
  case (Suc k)
  show ?case
  proof (cases "snd gg ! k = 0")
    case True
    with Suc show ?thesis by (simp add: assigned_Suc assign_step_def)
  next
    case False
    let ?n = "fst (assigned gg k net)"
    let ?F = "fold (stamp (snd (assigned gg k net))) (fst gg ! k) ?n"
    have "?F = ?n\<lparr>node_objs := node_objs ?F\<rparr>" by (rule stamp_fold_frame)
    also have "\<dots> = net\<lparr>node_objs := node_objs ?F\<rparr>" by (subst Suc) simp
    finally show ?thesis using False by (simp add: assigned_Suc assign_step_def)
  qed
qed

lemma assigned_outside:
  "\<not> in_active_group gg k r \<Longrightarrow> node_objs (fst (assigned gg k net)) r = node_objs net r"
proof (induction k)
  case 0
  show ?case by (simp add: assigned_def)
next
  case (Suc k)
  from Suc.prems have a: "\<not> in_active_group gg k r" and b: "snd gg ! k \<noteq> 0 \<longrightarrow> r \<notin> set (fst gg ! k)"
    by (auto simp: in_active_group_def less_Suc_eq)
  with Suc.IH show ?case
    by (simp add: assigned_Suc assign_step_def stamp_fold_objs)
qed

lemma assigned_only_main:
  "node_objs (fst (assigned gg k net)) r =
     (node_objs net r)\<lparr>main_node_id := main_node_id (node_objs (fst (assigned gg k net)) r)\<rparr>"
proof (induction k)
  case 0
  show ?case by (simp add: assigned_def)
next
  case (Suc k)
  let ?n = "fst (assigned gg k net)"
  show ?case
  proof (cases "snd gg ! k \<noteq> 0 \<and> r \<in> set (fst gg ! k)")
    case True
    have "node_objs (fst (assigned gg (Suc k) net)) r
        = (node_objs ?n r)\<lparr>main_node_id := Some (snd (assigned gg k net))\<rparr>"
      using True by (simp add: assigned_Suc assign_step_def stamp_fold_objs)
    also have "\<dots> = (node_objs net r)\<lparr>main_node_id := Some (snd (assigned gg k net))\<rparr>"
      by (subst Suc) simp
    finally show ?thesis by simp
  next
    case False
    then have "node_objs (fst (assigned gg (Suc k) net)) r = node_objs ?n r"
      by (auto simp: assigned_Suc assign_step_def stamp_fold_objs)
    with Suc show ?thesis by simp
  qed
qed

lemma assigned_inside:
  "in_active_group gg k r \<Longrightarrow>
   \<exists>i<k. snd gg ! i \<noteq> 0 \<and> r \<in> set (fst gg ! i)
     \<and> main_node_id (node_objs (fst (assigned gg k net)) r)
         = Some (max_main_node_id net + int (active_before (snd gg) i))"
proof (induction k)
  case 0
  then show ?case by (simp add: in_active_group_def)
next
  case (Suc k)
  show ?case
  proof (cases "snd gg ! k \<noteq> 0 \<and> r \<in> set (fst gg ! k)")
    case True
    then have "main_node_id (node_objs (fst (assigned gg (Suc k) net)) r)
         = Some (max_main_node_id net + int (active_before (snd gg) k))"
      by (simp add: assigned_Suc assign_step_def stamp_fold_objs assigned_snd)
    with True show ?thesis by blast
  next
    case False
    with Suc.prems have "in_active_group gg k r"
      by (auto simp: in_active_group_def less_Suc_eq)
    from Suc.IH [OF this] obtain i where i: "i < k" "snd gg ! i \<noteq> 0" "r \<in> set (fst gg ! i)"
      "main_node_id (node_objs (fst (assigned gg k net)) r)
         = Some (max_main_node_id net + int (active_before (snd gg) i))" by blast
    from False have "node_objs (fst (assigned gg (Suc k) net)) r = node_objs (fst (assigned gg k net)) r"
      by (auto simp: assigned_Suc assign_step_def stamp_fold_objs)
    with i show ?thesis by (metis less_Suc_eq)
  qed
qed

lemma assign_ids_eq:
  "assign_ids gg net =
     (fst (assigned gg (length (fst gg)) net))
       \<lparr>max_main_node_id := max_main_node_id net + int (active_before (snd gg) (length (fst gg)))\<rparr>"
  by (simp add: assign_ids_def Let_def assigned_def [symmetric] assigned_snd)

lemma assign_ids_frame:
  "link_objs (assign_ids gg net) = link_objs net"
  "link_dict (assign_ids gg net) = link_dict net"
  "node_dict (assign_ids gg net) = node_dict net"
  "node_count (assign_ids gg net) = node_count net"
  "max_node_id (assign_ids gg net) = max_node_id net"
  by (simp_all add: assign_ids_eq, (subst assigned_frame, simp)+)

lemma assign_ids_objs:
  "node_objs (assign_ids gg net) = node_objs (fst (assigned gg (length (fst gg)) net))"
  by (simp add: assign_ids_eq)

lemma assign_ids_nil: "fst gg = [] \<Longrightarrow> assign_ids gg net = net"
  by (simp add: assign_ids_def)

section \<open>Properties of detection\<close>

lemma candidate_groups_lengths:
  "length (snd (candidate_groups t net)) = length (fst (candidate_groups t net))"
  "\<forall>i<length (fst (candidate_groups t net)). snd (candidate_groups t net) ! i \<noteq> 0"
  by (simp_all add: candidate_groups_eq)

lemma merged_groups_covers:
  "covers (fst (candidate_groups t net)) (merged_groups t net)"
proof -
  obtain gl gs where c: "candidate_groups t net = (gl, gs)" by (cases "candidate_groups t net")
  with candidate_groups_lengths [of t net] have "covers gl (gl, gs)"
    by (intro covers_initial) simp_all
  then have "covers gl (merge_loop (gl, gs) (sum_list gs))" by (rule merge_loop_covers)
  with c show ?thesis by (simp add: merged_groups_def)
qed

lemma merged_groups_disjoint: "disjoint_active (merged_groups t net)"
  unfolding merged_groups_def Let_def
  by (rule merge_loop_disjoint) (simp_all add: candidate_groups_lengths)

lemma merged_groups_length:
  "length (snd (merged_groups t net)) = length (fst (merged_groups t net))"
  using merged_groups_covers [of t net] by (simp add: covers_def)

lemma contributes_in_candidates:
  assumes "(k, l) \<in> set (link_dict net)" "contributes t net l"
  shows "\<exists>i<length (fst (candidate_groups t net)). fst (candidate_groups t net) ! i = link_group net l"
proof -
  from assms have "link_group net l \<in> set (fst (candidate_groups t net))"
    by (force simp: candidate_groups_eq)
  then show ?thesis by (simp add: in_set_conv_nth)
qed

lemma contributes_in_merged:
  assumes "(k, l) \<in> set (link_dict net)" "contributes t net l"
  shows "\<exists>i<length (fst (merged_groups t net)). snd (merged_groups t net) ! i \<noteq> 0
           \<and> set (link_group net l) \<subseteq> set (fst (merged_groups t net) ! i)"
proof -
  from contributes_in_candidates [OF assms] obtain j where
    j: "j < length (fst (candidate_groups t net))" "fst (candidate_groups t net) ! j = link_group net l"
    by blast
  from merged_groups_covers [of t net]
  have len: "length (fst (merged_groups t net)) = length (fst (candidate_groups t net))"
    and cov: "\<forall>k<length (fst (candidate_groups t net)). \<exists>i<length (fst (candidate_groups t net)).
      snd (merged_groups t net) ! i \<noteq> 0
      \<and> set (fst (candidate_groups t net) ! k) \<subseteq> set (fst (merged_groups t net) ! i)"
    by (simp_all add: covers_def)
  from cov j(1) obtain i where "i < length (fst (candidate_groups t net))"
    "snd (merged_groups t net) ! i \<noteq> 0"
    "set (fst (candidate_groups t net) ! j) \<subseteq> set (fst (merged_groups t net) ! i)" by blast
  with j(2) len show ?thesis by auto
qed

lemma link_group_set:
  "set (link_group net l) = {from_node (link_objs net l), to_node (link_objs net l)}"
  by (auto simp: link_group_def py_set2_def)

lemma candidate_members_ungrouped:
  assumes "r \<in> \<Union> (set ` set (fst (candidate_groups t net)))"
  shows "main_node_id (node_objs net r) = None"
proof -
  from assms obtain g where g: "g \<in> set (fst (candidate_groups t net))" "r \<in> set g" by blast
  from g(1) obtain l where l: "contributes t net l" "g = link_group net l"
    by (auto simp: candidate_groups_eq)
  from g(2) l(2) have "r = from_node (link_objs net l) \<or> r = to_node (link_objs net l)"
    by (simp add: link_group_set)
  with l(1) show ?thesis by (auto simp: contributes_def)
qed

lemma merged_members_ungrouped:
  assumes "in_active_group (merged_groups t net) (length (fst (merged_groups t net))) r"
  shows "main_node_id (node_objs net r) = None"
proof -
  from assms obtain i where i: "i < length (fst (merged_groups t net))"
    "r \<in> set (fst (merged_groups t net) ! i)" by (auto simp: in_active_group_def)
  from merged_groups_covers [of t net]
  have len: "length (fst (merged_groups t net)) = length (fst (candidate_groups t net))"
    and sub: "\<forall>i<length (fst (candidate_groups t net)).
      set (fst (merged_groups t net) ! i) \<subseteq> \<Union> (set ` set (fst (candidate_groups t net)))"
    by (simp_all add: covers_def)
  from sub i(1) len
  have "set (fst (merged_groups t net) ! i) \<subseteq> \<Union> (set ` set (fst (candidate_groups t net)))"
    by simp
  with i(2) have "r \<in> \<Union> (set ` set (fst (candidate_groups t net)))" by (rule rev_subsetD)
  then show ?thesis by (rule candidate_members_ungrouped)
qed

lemma detect_objs:
  "node_objs (identifyComplexIntersections net t) =
     node_objs (fst (assigned (merged_groups t net) (length (fst (merged_groups t net))) net))"
  by (simp add: identifyComplexIntersections_def assign_ids_objs)

lemma detect_group_id:
  assumes i: "i < length (fst (merged_groups t net))" and act: "snd (merged_groups t net) ! i \<noteq> 0"
    and r: "r \<in> set (fst (merged_groups t net) ! i)"
  shows "main_node_id (node_objs (identifyComplexIntersections net t) r)
           = Some (max_main_node_id net + int (active_before (snd (merged_groups t net)) i))"
proof -
  let ?gg = "merged_groups t net"
  from i act r have "in_active_group ?gg (length (fst ?gg)) r"
    by (auto simp: in_active_group_def)
  from assigned_inside [OF this, of net] obtain j where
    j: "j < length (fst ?gg)" "snd ?gg ! j \<noteq> 0" "r \<in> set (fst ?gg ! j)"
    "main_node_id (node_objs (fst (assigned ?gg (length (fst ?gg)) net)) r)
         = Some (max_main_node_id net + int (active_before (snd ?gg) j))" by blast
  have "j = i"
  proof (rule ccontr)
    assume "j \<noteq> i"
    with merged_groups_disjoint [of t net] i act j(1,2)
    have "set (fst ?gg ! j) \<inter> set (fst ?gg ! i) = {}"
      unfolding disjoint_active_def by blast
    with r j(3) show False by blast
  qed
  with j(4) show ?thesis by (simp add: detect_objs)
qed

text \<open>
  Claim C2. If A, B and C are signal-controlled and ungrouped, and the link dictionary holds
  a link between A and B and a link between B and C, each of length at most the threshold,
  then detection gives A, B and C one and the same group identifier.
\<close>

theorem detection_transitive:
  assumes l1: "(k1, l1) \<in> set (link_dict net)"
    and e1: "{from_node (link_objs net l1), to_node (link_objs net l1)} = {A, B}"
    and len1: "float_le (link_length (link_objs net l1)) t"
    and l2: "(k2, l2) \<in> set (link_dict net)"
    and e2: "{from_node (link_objs net l2), to_node (link_objs net l2)} = {B, C}"
    and len2: "float_le (link_length (link_objs net l2)) t"
    and sig: "ctrl_type (node_objs net A) = ''signal''" "ctrl_type (node_objs net B) = ''signal''"
      "ctrl_type (node_objs net C) = ''signal''"
    and ung: "main_node_id (node_objs net A) = None" "main_node_id (node_objs net B) = None"
      "main_node_id (node_objs net C) = None"
  shows "\<exists>m. main_node_id (node_objs (identifyComplexIntersections net t) A) = Some m
           \<and> main_node_id (node_objs (identifyComplexIntersections net t) B) = Some m
           \<and> main_node_id (node_objs (identifyComplexIntersections net t) C) = Some m"
proof -
  let ?gg = "merged_groups t net"
  have g1: "set (link_group net l1) = {A, B}" using e1 by (simp add: link_group_set)
  have g2: "set (link_group net l2) = {B, C}" using e2 by (simp add: link_group_set)
  have c1: "contributes t net l1"
    using e1 float_le_not_gt [OF len1] sig ung unfolding contributes_def
    by (auto simp: doubleton_eq_iff)
  have c2: "contributes t net l2"
    using e2 float_le_not_gt [OF len2] sig ung unfolding contributes_def
    by (auto simp: doubleton_eq_iff)
  from contributes_in_merged [OF l1 c1] g1 obtain i where
    i: "i < length (fst ?gg)" "snd ?gg ! i \<noteq> 0" "A \<in> set (fst ?gg ! i)" "B \<in> set (fst ?gg ! i)"
    by auto
  from contributes_in_merged [OF l2 c2] g2 obtain j where
    j: "j < length (fst ?gg)" "snd ?gg ! j \<noteq> 0" "B \<in> set (fst ?gg ! j)" "C \<in> set (fst ?gg ! j)"
    by auto
  have "j = i"
  proof (rule ccontr)
    assume "j \<noteq> i"
    with merged_groups_disjoint [of t net] i(1,2) j(1,2)
    have "set (fst ?gg ! j) \<inter> set (fst ?gg ! i) = {}"
      unfolding disjoint_active_def by blast
    with i(4) j(3) show False by blast
  qed
  with j have "C \<in> set (fst ?gg ! i)" by simp
  with i show ?thesis by (simp add: detect_group_id)
qed

theorem detection_transitive_witness:
  "(100, 0) \<in> set (link_dict scenario_net)
   \<and> {from_node (link_objs scenario_net 0), to_node (link_objs scenario_net 0)} = {0, 1}
   \<and> float_le (link_length (link_objs scenario_net 0)) (Num 10)
   \<and> (101, 1) \<in> set (link_dict scenario_net)
   \<and> {from_node (link_objs scenario_net 1), to_node (link_objs scenario_net 1)} = {1, 2}
   \<and> float_le (link_length (link_objs scenario_net 1)) (Num 10)
   \<and> ctrl_type (node_objs scenario_net 0) = ''signal''
   \<and> ctrl_type (node_objs scenario_net 1) = ''signal''
   \<and> ctrl_type (node_objs scenario_net 2) = ''signal''
   \<and> main_node_id (node_objs scenario_net 0) = None
   \<and> main_node_id (node_objs scenario_net 1) = None
   \<and> main_node_id (node_objs scenario_net 2) = None
   \<and> (\<exists>m. main_node_id (node_objs (identifyComplexIntersections scenario_net (Num 10)) 0) = Some m
           \<and> main_node_id (node_objs (identifyComplexIntersections scenario_net (Num 10)) 1) = Some m
           \<and> main_node_id (node_objs (identifyComplexIntersections scenario_net (Num 10)) 2) = Some m)"
proof -
  have h: "(100, 0) \<in> set (link_dict scenario_net)"
    "{from_node (link_objs scenario_net 0), to_node (link_objs scenario_net 0)} = {0, 1}"
    "float_le (link_length (link_objs scenario_net 0)) (Num 10)"
    "(101, 1) \<in> set (link_dict scenario_net)"
    "{from_node (link_objs scenario_net 1), to_node (link_objs scenario_net 1)} = {1, 2}"
    "float_le (link_length (link_objs scenario_net 1)) (Num 10)"
    "ctrl_type (node_objs scenario_net 0) = ''signal''"
    "ctrl_type (node_objs scenario_net 1) = ''signal''"
    "ctrl_type (node_objs scenario_net 2) = ''signal''"
    "main_node_id (node_objs scenario_net 0) = None"
    "main_node_id (node_objs scenario_net 1) = None"
    "main_node_id (node_objs scenario_net 2) = None"
    by (simp_all add: scenario_net_def scenario_node_def)
  from detection_transitive [OF h] h show ?thesis by simp
qed

lemma detect_counter:
  "max_main_node_id (identifyComplexIntersections net t)
     = max_main_node_id net
       + int (active_before (snd (merged_groups t net)) (length (fst (merged_groups t net))))"
  by (simp add: identifyComplexIntersections_def assign_ids_eq)

lemma active_before_inj:
  assumes "i < k" "j < k" "gs ! i \<noteq> 0" "gs ! j \<noteq> 0" "active_before gs i = active_before gs j"
  shows "i = j"
proof (rule ccontr)
  assume "i \<noteq> j"
  then consider "i < j" | "j < i" by linarith
  then show False
  proof cases
    case 1
    with assms(3) have "active_before gs i < active_before gs j" by (intro active_before_less)
    with assms(5) show False by simp
  next
    case 2
    with assms(4) have "active_before gs j < active_before gs i" by (intro active_before_less)
    with assms(5) show False by simp
  qed
qed

lemma minted_not_carried:
  assumes "fresh_group_ids net t" "max_main_node_id net \<le> m"
    "m < max_main_node_id (identifyComplexIntersections net t)"
  shows "\<not> carried net m"
  using assms by (simp add: fresh_group_ids_def minted_ids_def)

text \<open>
  Claim C3, which fails as it is stated. The identifier of a group is the value of the
  counter
  \<open>max_main_node_id\<close>, which the code does not compare with the identifiers in use
  (lines 57-61). The fourth node of \<open>stale_net\<close> has the group identifier 0 and the counter
  is 0: detection finds the one group of the first and the second node and gives it the
  identifier 0 as well. The identifier that the two ungrouped nodes receive is not fresh,
  and three nodes carry it after the run.
\<close>

theorem stale_counter_counterexample:
  "(9, 3) \<in> set (node_dict stale_net)
   \<and> main_node_id (node_objs stale_net 3) = Some 0
   \<and> max_main_node_id stale_net = 0
   \<and> merged_groups (Num 10) stale_net = ([[1, 0]], [1])
   \<and> main_node_id (node_objs stale_net 0) = None
   \<and> main_node_id (node_objs (identifyComplexIntersections stale_net (Num 10)) 0) = Some 0
   \<and> carried stale_net 0
   \<and> group_of (identifyComplexIntersections stale_net (Num 10)) 0 = [0, 1, 3]"
  by code_simp

text \<open>
  Claim C3, amended. The groups that survive the merge loop are pairwise disjoint, so that
  a node lies in at most one of them and the assignment loop writes its group identifier
  at most once. After detection a node either has the group identifier it had before, or
  it had none before and now has one that was taken from the network's counter during
  this run. Two nodes of surviving groups have the same identifier after the run exactly
  when they are in the same group. Provided that no node of the node collection carries,
  before the run, one of the identifiers that the run takes from the counter, the
  identifier that a node receives is fresh: no node of the node collection carried it
  before the run.
\<close>

theorem detection_partition:
  "disjoint_active (merged_groups t net)
   \<and> length (filter (\<lambda>i. snd (merged_groups t net) ! i \<noteq> 0 \<and> r \<in> set (fst (merged_groups t net) ! i))
        [0..<length (fst (merged_groups t net))]) \<le> 1
   \<and> (main_node_id (node_objs (identifyComplexIntersections net t) r) = main_node_id (node_objs net r)
      \<or> main_node_id (node_objs net r) = None
        \<and> (\<exists>m. main_node_id (node_objs (identifyComplexIntersections net t) r) = Some m
              \<and> max_main_node_id net \<le> m
              \<and> m < max_main_node_id (identifyComplexIntersections net t)
              \<and> (fresh_group_ids net t \<longrightarrow> \<not> carried net m)))
   \<and> (\<forall>i<length (fst (merged_groups t net)). \<forall>j<length (fst (merged_groups t net)).
        snd (merged_groups t net) ! i \<noteq> 0 \<and> snd (merged_groups t net) ! j \<noteq> 0
        \<and> a \<in> set (fst (merged_groups t net) ! i) \<and> b \<in> set (fst (merged_groups t net) ! j)
        \<longrightarrow> (main_node_id (node_objs (identifyComplexIntersections net t) a)
               = main_node_id (node_objs (identifyComplexIntersections net t) b) \<longleftrightarrow> i = j))"
proof -
  let ?gg = "merged_groups t net"
  let ?n = "length (fst ?gg)"
  let ?net = "identifyComplexIntersections net t"
  let ?P = "\<lambda>i. snd ?gg ! i \<noteq> 0 \<and> r \<in> set (fst ?gg ! i)"
  have d: "disjoint_active ?gg" by (rule merged_groups_disjoint)
  have once: "length (filter ?P [0..<?n]) \<le> 1"
  proof -
    let ?S = "set (filter ?P [0..<?n])"
    have "length (filter ?P [0..<?n]) = card ?S"
      by (rule distinct_card [symmetric]) simp
    also have "\<dots> \<le> Suc 0"
    proof -
      have "\<forall>a\<in>?S. \<forall>b\<in>?S. a = b"
        using d unfolding disjoint_active_def by auto
      moreover have "finite ?S" by (rule finite_set)
      ultimately show ?thesis using card_le_Suc0_iff_eq [of ?S] by blast
    qed
    finally show ?thesis by simp
  qed
  have ids: "main_node_id (node_objs ?net r) = main_node_id (node_objs net r)
      \<or> main_node_id (node_objs net r) = None
        \<and> (\<exists>m. main_node_id (node_objs ?net r) = Some m
              \<and> max_main_node_id net \<le> m
              \<and> m < max_main_node_id ?net
              \<and> (fresh_group_ids net t \<longrightarrow> \<not> carried net m))"
  proof (cases "in_active_group ?gg ?n r")
    case False
    then show ?thesis by (simp add: detect_objs assigned_outside)
  next
    case True
    then obtain i where i: "i < ?n" "snd ?gg ! i \<noteq> 0" "r \<in> set (fst ?gg ! i)"
      by (auto simp: in_active_group_def)
    let ?m = "max_main_node_id net + int (active_before (snd ?gg) i)"
    have a: "main_node_id (node_objs ?net r) = Some ?m"
      using i by (rule detect_group_id)
    have c: "active_before (snd ?gg) i < active_before (snd ?gg) ?n"
      using i by (intro active_before_less)
    have lo: "max_main_node_id net \<le> ?m" by simp
    have hi: "?m < max_main_node_id ?net" using c by (simp add: detect_counter)
    have fr: "fresh_group_ids net t \<longrightarrow> \<not> carried net ?m"
      using minted_not_carried [OF _ lo hi] by blast
    have "main_node_id (node_objs net r) = None" using True by (rule merged_members_ungrouped)
    with a lo hi fr show ?thesis by blast
  qed
  have sep: "main_node_id (node_objs ?net a) = main_node_id (node_objs ?net b) \<longleftrightarrow> i = j"
    if h: "i < ?n" "j < ?n" "snd ?gg ! i \<noteq> 0" "snd ?gg ! j \<noteq> 0"
      "a \<in> set (fst ?gg ! i)" "b \<in> set (fst ?gg ! j)" for i j
  proof -
    have ia: "main_node_id (node_objs ?net a)
        = Some (max_main_node_id net + int (active_before (snd ?gg) i))"
      using h(1,3,5) by (rule detect_group_id)
    have jb: "main_node_id (node_objs ?net b)
        = Some (max_main_node_id net + int (active_before (snd ?gg) j))"
      using h(2,4,6) by (rule detect_group_id)
    show ?thesis
    proof
      assume "main_node_id (node_objs ?net a) = main_node_id (node_objs ?net b)"
      with ia jb have "active_before (snd ?gg) i = active_before (snd ?gg) j" by simp
      with h(1-4) show "i = j" by (intro active_before_inj [of i ?n j "snd ?gg"])
    next
      assume "i = j"
      with ia jb show "main_node_id (node_objs ?net a) = main_node_id (node_objs ?net b)"
        by simp
    qed
  qed
  from d once ids sep show ?thesis by blast
qed

theorem detection_partition_witness:
  "merged_groups (Num 10) (pair_net 10) = ([[1, 0], [3, 2]], [1, 1])
   \<and> disjoint_active (merged_groups (Num 10) (pair_net 10))
   \<and> set [1, 0] \<inter> set [3, 2] = ({} :: nat set)
   \<and> fresh_group_ids (pair_net 10) (Num 10)
   \<and> main_node_id (node_objs (pair_net 10) 3) = None
   \<and> main_node_id (node_objs (identifyComplexIntersections (pair_net 10) (Num 10)) 3) = Some 1
   \<and> \<not> carried (pair_net 10) 1
   \<and> main_node_id (node_objs (identifyComplexIntersections (pair_net 10) (Num 10)) 0) = Some 0
   \<and> main_node_id (node_objs (identifyComplexIntersections (pair_net 10) (Num 10)) 0)
       \<noteq> main_node_id (node_objs (identifyComplexIntersections (pair_net 10) (Num 10)) 3)
   \<and> main_node_id (node_objs (identifyComplexIntersections (pair_net 10) (Num 10)) 2)
       = main_node_id (node_objs (identifyComplexIntersections (pair_net 10) (Num 10)) 3)
   \<and> max_main_node_id (identifyComplexIntersections (pair_net 10) (Num 10)) = 2"
proof -
  let ?net = "identifyComplexIntersections (pair_net 10) (Num 10)"
  have m: "merged_groups (Num 10) (pair_net 10) = ([[1, 0], [3, 2]], [1, 1])" by code_simp
  have f: "fresh_group_ids (pair_net 10) (Num 10)" by code_simp
  have a: "main_node_id (node_objs (pair_net 10) 3) = None" by code_simp
  have b: "main_node_id (node_objs ?net 3) = Some 1" by code_simp
  have b0: "main_node_id (node_objs ?net 0) = Some 0" by code_simp
  have c: "max_main_node_id ?net = 2" by code_simp
  note t = detection_partition [of "Num 10" "pair_net 10" 3 0 3]
  from t have d: "disjoint_active (merged_groups (Num 10) (pair_net 10))" by blast
  from t a b f have nc: "\<not> carried (pair_net 10) 1" by auto
  from t have "\<forall>i<length (fst (merged_groups (Num 10) (pair_net 10))).
      \<forall>j<length (fst (merged_groups (Num 10) (pair_net 10))).
        snd (merged_groups (Num 10) (pair_net 10)) ! i \<noteq> 0
        \<and> snd (merged_groups (Num 10) (pair_net 10)) ! j \<noteq> 0
        \<and> 0 \<in> set (fst (merged_groups (Num 10) (pair_net 10)) ! i)
        \<and> 3 \<in> set (fst (merged_groups (Num 10) (pair_net 10)) ! j)
        \<longrightarrow> (main_node_id (node_objs ?net 0) = main_node_id (node_objs ?net 3) \<longleftrightarrow> i = j)"
    by blast
  from this [rule_format, of 0 1]
  have "main_node_id (node_objs ?net 0) = main_node_id (node_objs ?net 3) \<longleftrightarrow> (0::nat) = 1"
    by (simp add: m)
  then have ne: "main_node_id (node_objs ?net 0) \<noteq> main_node_id (node_objs ?net 3)" by simp
  have b2: "main_node_id (node_objs ?net 2) = Some 1" by code_simp
  from m d f a b nc b0 ne b2 c show ?thesis by simp
qed

lemma detect_fields:
  "link_objs (identifyComplexIntersections net t) = link_objs net"
  "link_dict (identifyComplexIntersections net t) = link_dict net"
  by (simp_all add: identifyComplexIntersections_def assign_ids_frame)

lemma detect_ctrl:
  "ctrl_type (node_objs (identifyComplexIntersections net t) r) = ctrl_type (node_objs net r)"
  by (subst detect_objs, subst assigned_only_main) simp

lemma detect_no_candidates:
  assumes "(k, l) \<in> set (link_dict net)"
  shows "\<not> contributes t (identifyComplexIntersections net t) l"
proof
  let ?net = "identifyComplexIntersections net t"
  let ?gg = "merged_groups t net"
  let ?f = "from_node (link_objs net l)"
  assume c: "contributes t ?net l"
  then have len: "\<not> float_gt (link_length (link_objs net l)) t"
    and sig: "ctrl_type (node_objs net ?f) = ''signal''"
      "ctrl_type (node_objs net (to_node (link_objs net l))) = ''signal''"
    and none: "main_node_id (node_objs ?net ?f) = None"
      "main_node_id (node_objs ?net (to_node (link_objs net l))) = None"
    by (simp_all add: contributes_def detect_fields detect_ctrl)
  show False
  proof (cases "contributes t net l")
    case True
    from contributes_in_merged [OF assms True] obtain i where
      i: "i < length (fst ?gg)" "snd ?gg ! i \<noteq> 0" "set (link_group net l) \<subseteq> set (fst ?gg ! i)"
      by blast
    then have "?f \<in> set (fst ?gg ! i)" by (simp add: link_group_set)
    with i none detect_group_id [of i t net ?f] show False by simp
  next
    case False
    with len sig have "main_node_id (node_objs net ?f) \<noteq> None
        \<or> main_node_id (node_objs net (to_node (link_objs net l))) \<noteq> None"
      by (auto simp: contributes_def)
    moreover have "main_node_id (node_objs ?net r) \<noteq> None"
      if r: "main_node_id (node_objs net r) \<noteq> None" for r
    proof -
      have "\<not> in_active_group ?gg (length (fst ?gg)) r"
      proof
        assume "in_active_group ?gg (length (fst ?gg)) r"
        then have "main_node_id (node_objs net r) = None" by (rule merged_members_ungrouped)
        with r show False by simp
      qed
      then have "node_objs ?net r = node_objs net r"
        by (simp add: detect_objs assigned_outside)
      with r show ?thesis by simp
    qed
    ultimately show False using none by blast
  qed
qed

text \<open>
  Claim C8. After a run of detection no link contributes a candidate group any more, so a
  second run with the same threshold changes nothing: neither a node nor a counter.
\<close>

theorem detection_idempotent:
  "identifyComplexIntersections (identifyComplexIntersections net t) t
     = identifyComplexIntersections net t"
proof -
  let ?net = "identifyComplexIntersections net t"
  have "filter (contributes t ?net) (map snd (link_dict ?net)) = []"
    using detect_no_candidates [of _ _ net t] by (auto simp: filter_empty_conv detect_fields)
  then have "candidate_groups t ?net = ([], [])" by (simp add: candidate_groups_eq)
  then have "merged_groups t ?net = ([], [])"
    by (simp add: merged_groups_def, subst merge_loop_unfold, simp add: merge_pass_def)
  then show ?thesis
    by (simp add: identifyComplexIntersections_def [of ?net] assign_ids_nil)
qed

section \<open>One group: what the link loops do\<close>

lemma same_frame_refl: "same_frame a w w"
  by (simp add: same_frame_def)

lemma same_frame_trans: "same_frame a b w \<Longrightarrow> same_frame a w w' \<Longrightarrow> same_frame a b w'"
  by (simp add: same_frame_def)

lemma incoming_step_frame: "same_frame a w (incoming_step g a l w)"
  by (simp add: same_frame_def incoming_step_def Let_def)

lemma outgoing_step_frame: "same_frame a w (outgoing_step g a l w)"
  by (simp add: same_frame_def outgoing_step_def Let_def)

lemma incoming_fold_frame: "same_frame a w (fold (incoming_step g a) ls w)"
proof (induction ls arbitrary: w)
  case Nil
  show ?case by (simp add: same_frame_refl)
next
  case (Cons l ls)
  show ?case using same_frame_trans [OF incoming_step_frame Cons] by simp
qed

lemma outgoing_fold_frame: "same_frame a w (fold (outgoing_step g a) ls w)"
proof (induction ls arbitrary: w)
  case Nil
  show ?case by (simp add: same_frame_refl)
next
  case (Cons l ls)
  show ?case using same_frame_trans [OF outgoing_step_frame Cons] by simp
qed

lemma incoming_step_nodes:
  "removal_node_set (incoming_step g a l w) = removal_node_set w"
  by (simp add: incoming_step_def Let_def)

lemma outgoing_step_nodes:
  "removal_node_set (outgoing_step g a l w) = removal_node_set w"
  by (simp add: outgoing_step_def Let_def)

lemma incoming_fold_nodes:
  "removal_node_set (fold (incoming_step g a) ls w) = removal_node_set w"
  by (induction ls arbitrary: w) (simp_all add: incoming_step_nodes)

lemma outgoing_fold_nodes:
  "removal_node_set (fold (outgoing_step g a) ls w) = removal_node_set w"
  by (induction ls arbitrary: w) (simp_all add: outgoing_step_nodes)

lemma link_safe_refl: "link_safe G a b b"
  by (simp add: link_safe_def link_ok_def)

lemma incoming_step_safe:
  assumes s: "link_safe (set g) a b w" and a: "a \<notin> set g"
    and n: "lto b l \<in> set g" and l: "l \<in> set (inc_of b (lto b l))"
  shows "link_safe (set g) a b (incoming_step g a l w)
         \<and> handled_in (set g) a b l (incoming_step g a l w)"
proof -
  let ?w = "incoming_step g a l w"
  from s have ok: "link_ok (set g) a b w l'" for l' by (simp add: link_safe_def)
  from ok [of l] n have fr: "lfrom w l = lfrom b l" unfolding link_ok_def by blast
  show ?thesis
  proof (cases "lfrom w l \<in> set g")
    case True
    then have lt: "lto ?w l' = lto w l'" and lf: "lfrom ?w l' = lfrom w l'"
      and rl: "set (removal_link_set ?w) = insert l (set (removal_link_set w))" for l'
      by (simp_all add: incoming_step_def)
    have "link_ok (set g) a b ?w l'" for l'
      using ok [of l'] True fr n l unfolding link_ok_def lt lf rl by (cases "l' = l") auto
    moreover have "handled_in (set g) a b l ?w"
      using True fr by (simp add: handled_in_def rl)
    ultimately show ?thesis by (simp add: link_safe_def)
  next
    case False
    then have lt: "lto ?w l' = (if l' = l then a else lto w l')"
      and lf: "lfrom ?w l' = lfrom w l'"
      and rl: "removal_link_set ?w = removal_link_set w" for l'
      by (simp_all add: incoming_step_def Let_def)
    have "link_ok (set g) a b ?w l'" for l'
      using ok [of l'] False fr n l unfolding link_ok_def lt lf rl by (cases "l' = l") auto
    moreover have "handled_in (set g) a b l ?w"
      using False fr lt [of l] by (simp add: handled_in_def)
    ultimately show ?thesis by (simp add: link_safe_def)
  qed
qed

lemma outgoing_step_safe:
  assumes s: "link_safe (set g) a b w" and a: "a \<notin> set g"
    and n: "lfrom b l \<in> set g" and l: "l \<in> set (out_of b (lfrom b l))"
  shows "link_safe (set g) a b (outgoing_step g a l w)
         \<and> handled_out (set g) a b l (outgoing_step g a l w)"
proof -
  let ?w = "outgoing_step g a l w"
  from s have ok: "link_ok (set g) a b w l'" for l' by (simp add: link_safe_def)
  from ok [of l] n have fr: "lto w l = lto b l" unfolding link_ok_def by blast
  show ?thesis
  proof (cases "lto w l \<in> set g")
    case True
    then have lt: "lto ?w l' = lto w l'" and lf: "lfrom ?w l' = lfrom w l'"
      and rl: "set (removal_link_set ?w) = insert l (set (removal_link_set w))" for l'
      by (simp_all add: outgoing_step_def)
    have "link_ok (set g) a b ?w l'" for l'
      using ok [of l'] True fr n l unfolding link_ok_def lt lf rl by (cases "l' = l") auto
    moreover have "handled_out (set g) a b l ?w"
      using True fr by (simp add: handled_out_def rl)
    ultimately show ?thesis by (simp add: link_safe_def)
  next
    case False
    then have lf: "lfrom ?w l' = (if l' = l then a else lfrom w l')"
      and lt: "lto ?w l' = lto w l'"
      and rl: "removal_link_set ?w = removal_link_set w" for l'
      by (simp_all add: outgoing_step_def Let_def)
    have "link_ok (set g) a b ?w l'" for l'
      using ok [of l'] False fr n l unfolding link_ok_def lt lf rl by (cases "l' = l") auto
    moreover have "handled_out (set g) a b l ?w"
      using False fr lf [of l] by (simp add: handled_out_def)
    ultimately show ?thesis by (simp add: link_safe_def)
  qed
qed

text \<open>What has been handled stays handled.\<close>

lemma handled_stable_in:
  "handled_in G a b l w \<Longrightarrow> handled_in G a b l (incoming_step g a l' w)"
  "handled_out G a b l w \<Longrightarrow> handled_out G a b l (incoming_step g a l' w)"
  by (auto simp: handled_in_def handled_out_def incoming_step_def Let_def split: if_splits)

lemma handled_stable_out:
  "handled_in G a b l w \<Longrightarrow> handled_in G a b l (outgoing_step g a l' w)"
  "handled_out G a b l w \<Longrightarrow> handled_out G a b l (outgoing_step g a l' w)"
  by (auto simp: handled_in_def handled_out_def outgoing_step_def Let_def split: if_splits)

lemma handled_stable_in_fold:
  "handled_in G a b l w \<Longrightarrow> handled_in G a b l (fold (incoming_step g a) ls w)"
  "handled_out G a b l w \<Longrightarrow> handled_out G a b l (fold (incoming_step g a) ls w)"
  by (induction ls arbitrary: w) (simp_all add: handled_stable_in)

lemma handled_stable_out_fold:
  "handled_in G a b l w \<Longrightarrow> handled_in G a b l (fold (outgoing_step g a) ls w)"
  "handled_out G a b l w \<Longrightarrow> handled_out G a b l (fold (outgoing_step g a) ls w)"
  by (induction ls arbitrary: w) (simp_all add: handled_stable_out)

lemma incoming_fold_safe:
  assumes "link_safe (set g) a b w" "a \<notin> set g"
    "\<forall>l\<in>set ls. lto b l \<in> set g \<and> l \<in> set (inc_of b (lto b l))"
  shows "link_safe (set g) a b (fold (incoming_step g a) ls w)
         \<and> (\<forall>l\<in>set ls. handled_in (set g) a b l (fold (incoming_step g a) ls w))"
  using assms
proof (induction ls arbitrary: w)
  case Nil
  then show ?case by simp
next
  case (Cons l ls)
  from incoming_step_safe [of g a b w l] Cons.prems
  have st: "link_safe (set g) a b (incoming_step g a l w)"
    "handled_in (set g) a b l (incoming_step g a l w)" by simp_all
  from Cons.IH [OF st(1)] Cons.prems
  have "link_safe (set g) a b (fold (incoming_step g a) ls (incoming_step g a l w))"
    "\<forall>l'\<in>set ls. handled_in (set g) a b l' (fold (incoming_step g a) ls (incoming_step g a l w))"
    by auto
  with handled_stable_in_fold(1) [OF st(2), of g ls] show ?case by simp
qed

lemma outgoing_fold_safe:
  assumes "link_safe (set g) a b w" "a \<notin> set g"
    "\<forall>l\<in>set ls. lfrom b l \<in> set g \<and> l \<in> set (out_of b (lfrom b l))"
  shows "link_safe (set g) a b (fold (outgoing_step g a) ls w)
         \<and> (\<forall>l\<in>set ls. handled_out (set g) a b l (fold (outgoing_step g a) ls w))"
  using assms
proof (induction ls arbitrary: w)
  case Nil
  then show ?case by simp
next
  case (Cons l ls)
  from outgoing_step_safe [of g a b w l] Cons.prems
  have st: "link_safe (set g) a b (outgoing_step g a l w)"
    "handled_out (set g) a b l (outgoing_step g a l w)" by simp_all
  from Cons.IH [OF st(1)] Cons.prems
  have "link_safe (set g) a b (fold (outgoing_step g a) ls (outgoing_step g a l w))"
    "\<forall>l'\<in>set ls. handled_out (set g) a b l' (fold (outgoing_step g a) ls (outgoing_step g a l w))"
    by auto
  with handled_stable_out_fold(2) [OF st(2), of g ls] show ?case by simp
qed

section \<open>One group: the loop over the members\<close>

lemma member_step_props:
  assumes inv: "member_inv g a b D w" and a: "a \<notin> set g" and n: "n \<in> set g"
    and adj: "adjacent_ok g b"
  shows "member_inv g a b (insert n D) (fst (member_step env g a n (w, s)))"
    and "snd (member_step env g a n (w, s)) = add_member env (node_objs (w_net b) n) s"
proof -
  from inv have fr: "same_frame a b w" and sf: "link_safe (set g) a b w"
    and hd: "\<forall>m\<in>D. (\<forall>l\<in>set (inc_of b m). handled_in (set g) a b l w)
               \<and> (\<forall>l\<in>set (out_of b m). handled_out (set g) a b l w)"
    and rn: "set (removal_node_set w) = set (removal_node_set b) \<union> D"
    by (simp_all add: member_inv_def)
  from a n have na: "n \<noteq> a" by blast
  define w1 where "w1 = w\<lparr>removal_node_set := List.insert n (removal_node_set w)\<rparr>"
  define w2 where "w2 = fold (incoming_step g a) (inc_of w1 n) w1"
  define w3 where "w3 = fold (outgoing_step g a) (out_of w2 n) w2"
  define w4 where "w4 = w3\<lparr>w_net := (w_net w3)\<lparr>node_objs := (node_objs (w_net w3))(a :=
                 (node_objs (w_net w3) a)\<lparr>osm_highway := osm_highway (node_objs (w_net w3) n)\<rparr>)\<rparr>\<rparr>"
  have eq: "member_step env g a n (w, s) = (w4, add_member env (node_objs (w_net w) n) s)"
    by (simp add: member_step_def Let_def w1_def w2_def w3_def w4_def add_member_def)
  have nb: "node_objs (w_net w) n = node_objs (w_net b) n"
    using fr na by (simp add: same_frame_def)
  have f1: "same_frame a b w1" using fr by (simp add: w1_def same_frame_def)
  have s1: "link_safe (set g) a b w1" using sf by (simp add: w1_def link_safe_def link_ok_def)
  have inc1: "inc_of w1 n = inc_of b n" using f1 na by (simp add: same_frame_def)
  have f2: "same_frame a b w2"
    unfolding w2_def by (rule same_frame_trans [OF f1 incoming_fold_frame])
  have out2: "out_of w2 n = out_of b n" using f2 na by (simp add: same_frame_def)
  have f3: "same_frame a b w3"
    unfolding w3_def by (rule same_frame_trans [OF f2 outgoing_fold_frame])
  have f4: "same_frame a b w4" using f3 by (simp add: w4_def same_frame_def)
  have ci: "\<forall>l\<in>set (inc_of b n). lto b l \<in> set g \<and> l \<in> set (inc_of b (lto b l))"
    using adj n by (simp add: adjacent_ok_def)
  have co: "\<forall>l\<in>set (out_of b n). lfrom b l \<in> set g \<and> l \<in> set (out_of b (lfrom b l))"
    using adj n by (simp add: adjacent_ok_def)
  from incoming_fold_safe [OF s1 a ci]
  have s2: "link_safe (set g) a b w2"
    and h2: "\<forall>l\<in>set (inc_of b n). handled_in (set g) a b l w2"
    by (simp_all add: w2_def inc1)
  from outgoing_fold_safe [OF s2 a co]
  have s3: "link_safe (set g) a b w3"
    and h3: "\<forall>l\<in>set (out_of b n). handled_out (set g) a b l w3"
    by (simp_all add: w3_def out2)
  have l4: "lto w4 l = lto w3 l" "lfrom w4 l = lfrom w3 l"
    "removal_link_set w4 = removal_link_set w3" for l
    by (simp_all add: w4_def)
  have s4: "link_safe (set g) a b w4"
    using s3 by (simp add: link_safe_def link_ok_def l4)
  have st_in: "handled_in (set g) a b l w4" if "handled_in (set g) a b l w1" for l
  proof -
    from that have "handled_in (set g) a b l w2"
      unfolding w2_def by (rule handled_stable_in_fold)
    then have "handled_in (set g) a b l w3"
      unfolding w3_def by (rule handled_stable_out_fold)
    then show ?thesis by (simp add: handled_in_def l4)
  qed
  have st_out: "handled_out (set g) a b l w4" if "handled_out (set g) a b l w1" for l
  proof -
    from that have "handled_out (set g) a b l w2"
      unfolding w2_def by (rule handled_stable_in_fold)
    then have "handled_out (set g) a b l w3"
      unfolding w3_def by (rule handled_stable_out_fold)
    then show ?thesis by (simp add: handled_out_def l4)
  qed
  have h1: "handled_in (set g) a b l w \<Longrightarrow> handled_in (set g) a b l w1"
    "handled_out (set g) a b l w \<Longrightarrow> handled_out (set g) a b l w1" for l
    by (simp_all add: handled_in_def handled_out_def w1_def)
  have hn_in: "\<forall>l\<in>set (inc_of b n). handled_in (set g) a b l w4"
  proof
    fix l assume "l \<in> set (inc_of b n)"
    with h2 have "handled_in (set g) a b l w2" by blast
    then have "handled_in (set g) a b l w3"
      unfolding w3_def by (rule handled_stable_out_fold)
    then show "handled_in (set g) a b l w4" by (simp add: handled_in_def l4)
  qed
  have hn_out: "\<forall>l\<in>set (out_of b n). handled_out (set g) a b l w4"
    using h3 by (simp add: handled_out_def l4)
  have hD: "\<forall>m\<in>insert n D. (\<forall>l\<in>set (inc_of b m). handled_in (set g) a b l w4)
               \<and> (\<forall>l\<in>set (out_of b m). handled_out (set g) a b l w4)"
    using hd hn_in hn_out st_in st_out h1 by blast
  have "removal_node_set w4 = removal_node_set w1"
    by (simp add: w4_def w3_def w2_def outgoing_fold_nodes incoming_fold_nodes)
  then have rn4: "set (removal_node_set w4) = set (removal_node_set b) \<union> insert n D"
    using rn by (auto simp: w1_def)
  from f4 s4 hD rn4 show "member_inv g a b (insert n D) (fst (member_step env g a n (w, s)))"
    by (simp add: eq member_inv_def)
  show "snd (member_step env g a n (w, s)) = add_member env (node_objs (w_net b) n) s"
    by (simp add: eq nb)
qed

lemma member_fold_props:
  assumes a: "a \<notin> set g" and adj: "adjacent_ok g b" and sub: "set ns \<subseteq> set g"
    and inv: "member_inv g a b D w"
  shows "member_inv g a b (D \<union> set ns) (fst (fold (member_step env g a) ns (w, s)))
         \<and> snd (fold (member_step env g a) ns (w, s))
             = fold (\<lambda>n. add_member env (node_objs (w_net b) n)) ns s"
  using sub inv
proof (induction ns arbitrary: w s D)
  case Nil
  then show ?case by simp
next
  case (Cons n ns)
  from Cons.prems have n: "n \<in> set g" and sub': "set ns \<subseteq> set g" by simp_all
  obtain w' s' where st: "member_step env g a n (w, s) = (w', s')"
    by (cases "member_step env g a n (w, s)")
  from member_step_props [OF Cons.prems(2) a n adj, of env s] st
  have i': "member_inv g a b (insert n D) w'" and s': "s' = add_member env (node_objs (w_net b) n) s"
    by simp_all
  from Cons.IH [OF sub' i', of s'] s' st show ?case by simp
qed

section \<open>One group: the effect of \<open>process_group\<close>\<close>

lemma process_group_small: "length g < 2 \<Longrightarrow> process_group env cd (m, g) w = w"
  by (simp add: process_group_def)

lemma process_group_big:
  fixes w :: "'f work" and env :: "'f py_env" and cd :: "(int \<times> bool) list"
    and m :: int and g :: "nref list"
  assumes len: "2 \<le> length g" and lt: "\<forall>n\<in>set g. n < node_count (w_net w)"
    and adj: "adjacent_ok g w"
  defines "a \<equiv> node_count (w_net w)"
  defines "w' \<equiv> process_group env cd (m, g) w"
  shows "node_count (w_net w') = Suc a"
    and "max_node_id (w_net w') = max_node_id (w_net w) + 1"
    and "max_main_node_id (w_net w') = max_main_node_id (w_net w)"
    and "link_dict (w_net w') = link_dict (w_net w)"
    and "node_dict (w_net w') = AList.update (max_node_id (w_net w)) a (node_dict (w_net w))"
    and "\<forall>r. r \<noteq> a \<longrightarrow> node_objs (w_net w') r = node_objs (w_net w) r"
    and "\<forall>l. link_id (link_objs (w_net w') l) = link_id (link_objs (w_net w) l)"
    and "\<forall>l. lto w' l = (if lto w l \<in> set g \<and> lfrom w l \<notin> set g \<and> l \<in> set (inc_of w (lto w l))
                          then a else lto w l)"
    and "\<forall>l. lfrom w' l = (if lfrom w l \<in> set g \<and> lto w l \<notin> set g \<and> l \<in> set (out_of w (lfrom w l))
                          then a else lfrom w l)"
    and "set (removal_link_set w') = set (removal_link_set w) \<union> intra_links w g"
    and "set (removal_node_set w') = set (removal_node_set w) \<union> set g"
    and "main_node_id (node_objs (w_net w') a) = Some m"
    and "node_id (node_objs (w_net w') a) = max_node_id (w_net w)"
    and "geometry (node_objs (w_net w') a) =
           (py_round env (float_div env (x_coord_sum (group_sums env (w_net w) g)) (length g))
              (lonlat_coord_precision env),
            py_round env (float_div env (y_coord_sum (group_sums env (w_net w) g)) (length g))
              (lonlat_coord_precision env))"
    and "geometry_xy (node_objs (w_net w') a) =
           (py_round env (float_div env (x_coord_xy_sum (group_sums env (w_net w) g)) (length g))
              (local_coord_precision env),
            py_round env (float_div env (y_coord_xy_sum (group_sums env (w_net w) g)) (length g))
              (local_coord_precision env))"
proof -
  define nn1 where "nn1 = (if map_of cd m = Some True
       then (Node env (max_node_id (w_net w)))\<lparr>main_node_id := Some m, ctrl_type := ''signal''\<rparr>
       else (Node env (max_node_id (w_net w)))\<lparr>main_node_id := Some m\<rparr>)"
  define b where "b = w\<lparr>w_net := (w_net w)\<lparr>node_objs := (node_objs (w_net w))(a := nn1),
                                   node_count := node_count (w_net w) + 1\<rparr>\<rparr>"
  define ws where "ws = fold (member_step env g a) g (b, sums0 env)"
  define nn2 where "nn2 = (node_objs (w_net (fst ws)) a)
                    \<lparr>osm_node_id := join_underscore (osm_node_id_list (snd ws)),
                     geometry :=
                       (py_round env (float_div env (x_coord_sum (snd ws)) (length g))
                          (lonlat_coord_precision env),
                        py_round env (float_div env (y_coord_sum (snd ws)) (length g))
                          (lonlat_coord_precision env)),
                     geometry_xy :=
                       (py_round env (float_div env (x_coord_xy_sum (snd ws)) (length g))
                          (local_coord_precision env),
                        py_round env (float_div env (y_coord_xy_sum (snd ws)) (length g))
                          (local_coord_precision env))\<rparr>"
  have eq: "w' = (fst ws)\<lparr>w_net := (w_net (fst ws))
              \<lparr>node_objs := (node_objs (w_net (fst ws)))(a := nn2),
               node_dict := AList.update (node_id nn2) a (node_dict (w_net (fst ws))),
               max_node_id := max_node_id (w_net (fst ws)) + 1\<rparr>\<rparr>"
    using len
    by (simp add: w'_def process_group_def Let_def a_def [symmetric] nn1_def b_def ws_def
        nn2_def sums0_def)
  from lt have ag: "a \<notin> set g" by (auto simp: a_def)
  have lb: "lto b l = lto w l" "lfrom b l = lfrom w l" for l by (simp_all add: b_def)
  have nb: "n \<noteq> a \<Longrightarrow> node_objs (w_net b) n = node_objs (w_net w) n" for n by (simp add: b_def)
  have ng: "n \<in> set g \<Longrightarrow> node_objs (w_net b) n = node_objs (w_net w) n" for n
    using ag nb [of n] by auto
  have adjb: "adjacent_ok g b" using adj by (simp add: adjacent_ok_def lb ng)
  have i0: "member_inv g a b {} b"
    by (simp add: member_inv_def same_frame_refl link_safe_refl)
  from member_fold_props [OF ag adjb subset_refl i0, of env "sums0 env"]
  have inv: "member_inv g a b (set g) (fst ws)"
    and sm: "snd ws = fold (\<lambda>n. add_member env (node_objs (w_net b) n)) g (sums0 env)"
    by (simp_all add: ws_def)
  have "fold (\<lambda>n. add_member env (node_objs (w_net b) n)) ns s
      = fold (\<lambda>n. add_member env (node_objs (w_net w) n)) ns s" if "set ns \<subseteq> set g" for ns s
    using that by (induction ns arbitrary: s) (simp_all add: ng)
  with sm have sums: "snd ws = group_sums env (w_net w) g" by (simp add: group_sums_def)
  from inv have fr: "same_frame a b (fst ws)" and sf: "link_safe (set g) a b (fst ws)"
    and hi: "\<forall>n\<in>set g. \<forall>l\<in>set (inc_of b n). handled_in (set g) a b l (fst ws)"
    and ho: "\<forall>n\<in>set g. \<forall>l\<in>set (out_of b n). handled_out (set g) a b l (fst ws)"
    and rn: "set (removal_node_set (fst ws)) = set (removal_node_set b) \<union> set g"
    by (simp_all add: member_inv_def)
  have id2: "node_id nn2 = max_node_id (w_net w)"
    using fr by (simp add: nn2_def same_frame_def b_def nn1_def Node_def)
  have mn2: "main_node_id nn2 = Some m"
    using fr by (simp add: nn2_def same_frame_def b_def nn1_def Node_def)
  show "node_count (w_net w') = Suc a" using fr by (simp add: eq same_frame_def b_def a_def)
  show "max_node_id (w_net w') = max_node_id (w_net w) + 1"
    using fr by (simp add: eq same_frame_def b_def)
  show "max_main_node_id (w_net w') = max_main_node_id (w_net w)"
    using fr by (simp add: eq same_frame_def b_def)
  show "link_dict (w_net w') = link_dict (w_net w)"
    using fr by (simp add: eq same_frame_def b_def)
  show "node_dict (w_net w') = AList.update (max_node_id (w_net w)) a (node_dict (w_net w))"
    using fr by (simp add: eq id2 same_frame_def b_def)
  show "\<forall>r. r \<noteq> a \<longrightarrow> node_objs (w_net w') r = node_objs (w_net w) r"
    using fr by (simp add: eq same_frame_def b_def)
  show "\<forall>l. link_id (link_objs (w_net w') l) = link_id (link_objs (w_net w) l)"
    using fr by (simp add: eq same_frame_def b_def)
  have lw: "lto w' l = lto (fst ws) l" "lfrom w' l = lfrom (fst ws) l"
    "removal_link_set w' = removal_link_set (fst ws)"
    "removal_node_set w' = removal_node_set (fst ws)" for l
    by (simp_all add: eq)
  have ok: "link_ok (set g) a b (fst ws) l" for l using sf by (simp add: link_safe_def)
  have ib: "lto w l \<in> set g \<Longrightarrow> inc_of b (lto w l) = inc_of w (lto w l)"
    and ob: "lfrom w l \<in> set g \<Longrightarrow> out_of b (lfrom w l) = out_of w (lfrom w l)" for l
    by (simp_all add: ng)
  show "\<forall>l. lto w' l = (if lto w l \<in> set g \<and> lfrom w l \<notin> set g \<and> l \<in> set (inc_of w (lto w l))
                          then a else lto w l)"
  proof
    fix l
    show "lto w' l = (if lto w l \<in> set g \<and> lfrom w l \<notin> set g \<and> l \<in> set (inc_of w (lto w l))
                          then a else lto w l)"
    proof (cases "lto w l \<in> set g \<and> lfrom w l \<notin> set g \<and> l \<in> set (inc_of w (lto w l))")
      case True
      with hi ib [of l] have "handled_in (set g) a b l (fst ws)" by auto
      with True show ?thesis by (simp add: handled_in_def lb lw)
    next
      case False
      with ok [of l] ib [of l] show ?thesis by (auto simp: link_ok_def lb lw)
    qed
  qed
  show "\<forall>l. lfrom w' l = (if lfrom w l \<in> set g \<and> lto w l \<notin> set g \<and> l \<in> set (out_of w (lfrom w l))
                          then a else lfrom w l)"
  proof
    fix l
    show "lfrom w' l = (if lfrom w l \<in> set g \<and> lto w l \<notin> set g \<and> l \<in> set (out_of w (lfrom w l))
                          then a else lfrom w l)"
    proof (cases "lfrom w l \<in> set g \<and> lto w l \<notin> set g \<and> l \<in> set (out_of w (lfrom w l))")
      case True
      with ho ob [of l] have "handled_out (set g) a b l (fst ws)" by auto
      with True show ?thesis by (simp add: handled_out_def lb lw)
    next
      case False
      with ok [of l] ob [of l] show ?thesis by (auto simp: link_ok_def lb lw)
    qed
  qed
  show "set (removal_link_set w') = set (removal_link_set w) \<union> intra_links w g"
  proof (rule set_eqI)
    fix l
    have rb: "removal_link_set b = removal_link_set w" by (simp add: b_def)
    show "l \<in> set (removal_link_set w') \<longleftrightarrow> l \<in> set (removal_link_set w) \<union> intra_links w g"
    proof
      assume "l \<in> set (removal_link_set w')"
      with ok [of l] ib [of l] ob [of l] show "l \<in> set (removal_link_set w) \<union> intra_links w g"
        by (auto simp: link_ok_def lb lw rb intra_links_def)
    next
      assume "l \<in> set (removal_link_set w) \<union> intra_links w g"
      then show "l \<in> set (removal_link_set w')"
      proof
        assume "l \<in> set (removal_link_set w)"
        with ok [of l] show ?thesis by (simp add: link_ok_def lw rb)
      next
        assume il: "l \<in> intra_links w g"
        then have fg: "lfrom w l \<in> set g" and tg: "lto w l \<in> set g"
          and d: "l \<in> set (inc_of w (lto w l)) \<or> l \<in> set (out_of w (lfrom w l))"
          by (simp_all add: intra_links_def)
        from d show ?thesis
        proof
          assume "l \<in> set (inc_of w (lto w l))"
          with hi tg ib [of l] have "handled_in (set g) a b l (fst ws)" by auto
          with fg show ?thesis by (simp add: handled_in_def lb lw)
        next
          assume "l \<in> set (out_of w (lfrom w l))"
          with ho fg ob [of l] have "handled_out (set g) a b l (fst ws)" by auto
          with tg show ?thesis by (simp add: handled_out_def lb lw)
        qed
      qed
    qed
  qed
  show "set (removal_node_set w') = set (removal_node_set w) \<union> set g"
    using rn by (simp add: lw b_def)
  show "main_node_id (node_objs (w_net w') a) = Some m" by (simp add: eq mn2)
  show "node_id (node_objs (w_net w') a) = max_node_id (w_net w)" by (simp add: eq id2)
  show "geometry (node_objs (w_net w') a) =
           (py_round env (float_div env (x_coord_sum (group_sums env (w_net w) g)) (length g))
              (lonlat_coord_precision env),
            py_round env (float_div env (y_coord_sum (group_sums env (w_net w) g)) (length g))
              (lonlat_coord_precision env))"
    by (simp add: eq nn2_def sums)
  show "geometry_xy (node_objs (w_net w') a) =
           (py_round env (float_div env (x_coord_xy_sum (group_sums env (w_net w) g)) (length g))
              (local_coord_precision env),
            py_round env (float_div env (y_coord_xy_sum (group_sums env (w_net w) g)) (length g))
              (local_coord_precision env))"
    by (simp add: eq nn2_def sums)
qed

section \<open>All groups: where the endpoints of the links go\<close>

lemma nbig_snoc: "nbig (ps @ [mg]) = nbig ps + (if big mg then 1 else 0)"
  by (simp add: nbig_def)

lemma new_index_old: "mg \<in> set ps \<Longrightarrow> new_index (ps @ qs) (fst mg) = new_index ps (fst mg)"
  by (simp add: new_index_def takeWhile_append1)

lemma new_index_new: "m \<notin> fst ` set ps \<Longrightarrow> new_index (ps @ [(m, g)]) m = nbig ps"
proof -
  assume "m \<notin> fst ` set ps"
  then have "\<And>x. x \<in> set ps \<Longrightarrow> fst x \<noteq> m" by auto
  then have "takeWhile (\<lambda>mg. fst mg \<noteq> m) (ps @ [(m, g)]) = ps @ takeWhile (\<lambda>mg. fst mg \<noteq> m) [(m, g)]"
    by (rule takeWhile_append2)
  then show ?thesis by (simp add: new_index_def)
qed

lemma new_index_less: "mg \<in> set ps \<Longrightarrow> big mg \<Longrightarrow> new_index ps (fst mg) < nbig ps"
proof (induction ps)
  case Nil
  then show ?case by simp
next
  case (Cons x ps)
  show ?case
  proof (cases "fst x = fst mg")
    case True
    then have "new_index (x # ps) (fst mg) = 0" by (simp add: new_index_def nbig_def)
    moreover from Cons.prems have "filter big (x # ps) \<noteq> []"
      unfolding filter_empty_conv by blast
    then have "0 < nbig (x # ps)" unfolding nbig_def by blast
    ultimately show ?thesis by simp
  next
    case False
    with Cons.prems have "mg \<in> set ps" by auto
    from Cons.IH [OF this Cons.prems(2)] False show ?thesis
      by (simp add: new_index_def nbig_def)
  qed
qed

lemma end_inv_nil: "end_inv [] n0 e0 e0 o0 lst"
  by (simp add: end_inv_def)

lemma end_inv_member:
  assumes E: "end_inv ps n0 cur e0 o0 lst"
    and dis: "\<forall>mg\<in>set ps. set (snd mg) \<inter> set g = {}" and small: "\<forall>n\<in>set g. n < n0"
  shows "(cur l \<in> set g \<longleftrightarrow> e0 l \<in> set g) \<and> (e0 l \<in> set g \<longrightarrow> cur l = e0 l)"
proof -
  from E have "cur l = e0 l
          \<or> (\<exists>mg\<in>set ps. big mg \<and> e0 l \<in> set (snd mg) \<and> o0 l \<notin> set (snd mg)
                \<and> cur l = n0 + new_index ps (fst mg))"
    unfolding end_inv_def by blast
  then show ?thesis
  proof
    assume "cur l = e0 l"
    then show ?thesis by simp
  next
    assume "\<exists>mg\<in>set ps. big mg \<and> e0 l \<in> set (snd mg) \<and> o0 l \<notin> set (snd mg)
                \<and> cur l = n0 + new_index ps (fst mg)"
    then obtain mg where mg: "mg \<in> set ps" "e0 l \<in> set (snd mg)"
      "cur l = n0 + new_index ps (fst mg)" by blast
    from mg(1,2) dis have "e0 l \<notin> set g" by blast
    moreover from mg(3) small have "cur l \<notin> set g" by fastforce
    ultimately show ?thesis by simp
  qed
qed

lemma end_inv_skip:
  assumes E: "end_inv ps n0 cur e0 o0 lst" and nb: "\<not> big mg'"
  shows "end_inv (ps @ [mg']) n0 cur e0 o0 lst"
proof -
  have ix: "new_index (ps @ [mg']) (fst mg) = new_index ps (fst mg)" if "mg \<in> set ps" for mg
    using that by (rule new_index_old)
  from E have e1: "cur l = e0 l
          \<or> (\<exists>mg\<in>set ps. big mg \<and> e0 l \<in> set (snd mg) \<and> o0 l \<notin> set (snd mg)
                \<and> cur l = n0 + new_index ps (fst mg))" for l
    unfolding end_inv_def by blast
  from E have e2: "mg \<in> set ps \<Longrightarrow> big mg \<Longrightarrow>
      e0 l \<in> set (snd mg) \<and> o0 l \<notin> set (snd mg) \<and> l \<in> set (lst (e0 l))
               \<Longrightarrow> cur l = n0 + new_index ps (fst mg)" for mg l
    unfolding end_inv_def by blast
  show ?thesis
    unfolding end_inv_def
  proof (intro conjI allI ballI impI)
    fix l
    from e1 [of l] ix
    show "cur l = e0 l
          \<or> (\<exists>mg\<in>set (ps @ [mg']). big mg \<and> e0 l \<in> set (snd mg) \<and> o0 l \<notin> set (snd mg)
                \<and> cur l = n0 + new_index (ps @ [mg']) (fst mg))"
      by auto
  next
    fix mg l
    assume "mg \<in> set (ps @ [mg'])" "big mg"
      "e0 l \<in> set (snd mg) \<and> o0 l \<notin> set (snd mg) \<and> l \<in> set (lst (e0 l))"
    with nb e2 [of mg l] ix [of mg]
    show "cur l = n0 + new_index (ps @ [mg']) (fst mg)" by auto
  qed
qed

lemma end_inv_step:
  assumes E: "end_inv ps n0 cur e0 o0 lst"
    and O: "\<And>l. (curo l \<in> set g \<longleftrightarrow> o0 l \<in> set g)"
    and step: "\<And>l. cur' l = (if cur l \<in> set g \<and> curo l \<notin> set g \<and> l \<in> set (lst (cur l))
                            then n0 + nbig ps else cur l)"
    and fresh: "m \<notin> fst ` set ps"
    and dis: "\<forall>mg\<in>set ps. set (snd mg) \<inter> set g = {}" and small: "\<forall>n\<in>set g. n < n0"
    and bg: "big (m, g)"
  shows "end_inv (ps @ [(m, g)]) n0 cur' e0 o0 lst"
proof -
  have ix: "new_index (ps @ [(m, g)]) (fst mg) = new_index ps (fst mg)" if "mg \<in> set ps" for mg
    using that by (rule new_index_old)
  have ixn: "new_index (ps @ [(m, g)]) m = nbig ps" using fresh by (rule new_index_new)
  from E have e1: "cur l = e0 l
          \<or> (\<exists>mg\<in>set ps. big mg \<and> e0 l \<in> set (snd mg) \<and> o0 l \<notin> set (snd mg)
                \<and> cur l = n0 + new_index ps (fst mg))" for l
    unfolding end_inv_def by blast
  from E have e2: "mg \<in> set ps \<Longrightarrow> big mg \<Longrightarrow>
      e0 l \<in> set (snd mg) \<and> o0 l \<notin> set (snd mg) \<and> l \<in> set (lst (e0 l))
               \<Longrightarrow> cur l = n0 + new_index ps (fst mg)" for mg l
    unfolding end_inv_def by blast
  have mem: "(cur l \<in> set g \<longleftrightarrow> e0 l \<in> set g) \<and> (e0 l \<in> set g \<longrightarrow> cur l = e0 l)" for l
    using E dis small by (rule end_inv_member)
  show ?thesis
    unfolding end_inv_def
  proof (intro conjI allI ballI impI)
    fix l
    show "cur' l = e0 l
          \<or> (\<exists>mg\<in>set (ps @ [(m, g)]). big mg \<and> e0 l \<in> set (snd mg) \<and> o0 l \<notin> set (snd mg)
                \<and> cur' l = n0 + new_index (ps @ [(m, g)]) (fst mg))"
    proof (cases "cur l \<in> set g \<and> curo l \<notin> set g \<and> l \<in> set (lst (cur l))")
      case True
      with step [of l] have c: "cur' l = n0 + nbig ps" by simp
      from True mem [of l] O [of l] have "e0 l \<in> set g" "o0 l \<notin> set g" by simp_all
      with c bg ixn have "big (m, g) \<and> e0 l \<in> set (snd (m, g)) \<and> o0 l \<notin> set (snd (m, g))
                \<and> cur' l = n0 + new_index (ps @ [(m, g)]) (fst (m, g))" by simp
      then show ?thesis by (intro disjI2 bexI [of _ "(m, g)"]) simp_all
    next
      case False
      with step [of l] have c: "cur' l = cur l" by simp
      from e1 [of l] show ?thesis
      proof
        assume "cur l = e0 l"
        with c show ?thesis by simp
      next
        assume "\<exists>mg\<in>set ps. big mg \<and> e0 l \<in> set (snd mg) \<and> o0 l \<notin> set (snd mg)
                \<and> cur l = n0 + new_index ps (fst mg)"
        then obtain mg where mg: "mg \<in> set ps" "big mg" "e0 l \<in> set (snd mg)"
          "o0 l \<notin> set (snd mg)" "cur l = n0 + new_index ps (fst mg)" by blast
        with c ix [of mg] have "big mg \<and> e0 l \<in> set (snd mg) \<and> o0 l \<notin> set (snd mg)
                \<and> cur' l = n0 + new_index (ps @ [(m, g)]) (fst mg)" by simp
        with mg(1) show ?thesis by (intro disjI2 bexI [of _ mg]) simp_all
      qed
    qed
  next
    fix mg l
    assume mg: "mg \<in> set (ps @ [(m, g)])" and b: "big mg"
      and c: "e0 l \<in> set (snd mg) \<and> o0 l \<notin> set (snd mg) \<and> l \<in> set (lst (e0 l))"
    show "cur' l = n0 + new_index (ps @ [(m, g)]) (fst mg)"
    proof (cases "mg \<in> set ps")
      case True
      from e2 [OF True b c] have cl: "cur l = n0 + new_index ps (fst mg)" .
      with small have "cur l \<notin> set g" by fastforce
      with step [of l] cl ix [OF True] show ?thesis by simp
    next
      case False
      with mg have mge: "mg = (m, g)" by simp
      with c mem [of l] O [of l] have "cur l \<in> set g \<and> curo l \<notin> set g \<and> l \<in> set (lst (cur l))"
        by simp
      with step [of l] ixn mge show ?thesis by simp
    qed
  qed
qed

section \<open>All groups: the state after the loop over the groups\<close>

lemma groups_inv_start: "groups_inv env s0 [] (start_work s0)"
  by (simp add: groups_inv_def start_work_def nbig_def end_inv_nil register_new_def
      new_nodes_ok_def)

lemma valid_groups_snoc:
  assumes "valid_groups net (ps @ [(m, g)])"
  shows "valid_groups net ps" and "m \<notin> fst ` set ps"
    and "\<forall>mg\<in>set ps. set (snd mg) \<inter> set g = {}"
    and "\<forall>r\<in>set g. r \<in> registered net"
proof -
  from assms show "valid_groups net ps" and m: "m \<notin> fst ` set ps"
    and "\<forall>r\<in>set g. r \<in> registered net"
    by (auto simp: valid_groups_def)
  show "\<forall>mg\<in>set ps. set (snd mg) \<inter> set g = {}"
  proof (intro ballI)
    fix mg assume mg: "mg \<in> set ps"
    show "set (snd mg) \<inter> set g = {}"
    proof (rule ccontr)
      assume "set (snd mg) \<inter> set g \<noteq> {}"
      then obtain r where r: "r \<in> set (snd mg)" "r \<in> set g" by blast
      from assms mg r(1) have "main_node_id (node_objs net r) = Some (fst mg)"
        unfolding valid_groups_def by simp
      moreover from assms r(2) have "main_node_id (node_objs net r) = Some m"
        unfolding valid_groups_def by simp
      ultimately have "fst mg = m" by simp
      with mg m show False by force
    qed
  qed
qed

lemma new_nodes_ok_skip:
  assumes "new_nodes_ok env s0 ps w" "\<not> big mg'"
  shows "new_nodes_ok env s0 (ps @ [mg']) w"
  unfolding new_nodes_ok_def
proof (intro ballI impI)
  fix mg assume "mg \<in> set (ps @ [mg'])" "big mg"
  with assms(2) have mg: "mg \<in> set ps" by auto
  then have "new_ref (ps @ [mg']) s0 (fst mg) = new_ref ps s0 (fst mg)"
    "new_id (ps @ [mg']) s0 (fst mg) = new_id ps s0 (fst mg)"
    by (simp_all add: new_ref_def new_id_def new_index_old)
  with assms(1) mg \<open>big mg\<close>
  show "main_node_id (node_objs (w_net w) (new_ref (ps @ [mg']) s0 (fst mg))) = Some (fst mg)
        \<and> node_id (node_objs (w_net w) (new_ref (ps @ [mg']) s0 (fst mg))) = new_id (ps @ [mg']) s0 (fst mg)
        \<and> geometry (node_objs (w_net w) (new_ref (ps @ [mg']) s0 (fst mg))) = group_geometry env s0 (snd mg)
        \<and> geometry_xy (node_objs (w_net w) (new_ref (ps @ [mg']) s0 (fst mg)))
            = group_geometry_xy env s0 (snd mg)"
    by (simp add: new_nodes_ok_def)
qed

lemma groups_inv_skip:
  assumes inv: "groups_inv env s0 ps w" and nb: "\<not> big mg'"
  shows "groups_inv env s0 (ps @ [mg']) w"
proof -
  have n: "nbig (ps @ [mg']) = nbig ps" using nb by (simp add: nbig_snoc)
  have u: "{mg \<in> set (ps @ [mg']). big mg} = {mg \<in> set ps. big mg}" using nb by auto
  from inv nb show ?thesis
    unfolding groups_inv_def n u by (simp add: end_inv_skip new_nodes_ok_skip)
qed

lemma group_sums_cong:
  assumes "\<forall>n\<in>set g. node_objs net n = node_objs net' n"
  shows "group_sums env net g = group_sums env net' g"
proof -
  have "fold (\<lambda>n. add_member env (node_objs net n)) ns s
      = fold (\<lambda>n. add_member env (node_objs net' n)) ns s" if "set ns \<subseteq> set g" for ns s
    using that assms by (induction ns arbitrary: s) simp_all
  then show ?thesis by (simp add: group_sums_def)
qed

lemma register_new_Suc:
  "register_new k0 n0 (Suc n) d = AList.update (k0 + int n) (n0 + n) (register_new k0 n0 n d)"
  by (simp add: register_new_def)

lemma intra_links_member:
  assumes f: "\<And>l. (lfrom w l \<in> set g \<longleftrightarrow> lfrom b l \<in> set g) \<and> (lfrom b l \<in> set g \<longrightarrow> lfrom w l = lfrom b l)"
    and t: "\<And>l. (lto w l \<in> set g \<longleftrightarrow> lto b l \<in> set g) \<and> (lto b l \<in> set g \<longrightarrow> lto w l = lto b l)"
    and n: "\<And>n. n \<in> set g \<Longrightarrow> node_objs (w_net w) n = node_objs (w_net b) n"
  shows "intra_links w g = intra_links b g"
proof (rule set_eqI)
  fix l
  show "l \<in> intra_links w g \<longleftrightarrow> l \<in> intra_links b g"
  proof (cases "lfrom b l \<in> set g \<and> lto b l \<in> set g")
    case True
    with f [of l] t [of l] have "lfrom w l = lfrom b l" "lto w l = lto b l" by simp_all
    with True n [of "lfrom b l"] n [of "lto b l"] show ?thesis
      by (simp add: intra_links_def)
  next
    case False
    with f [of l] t [of l] show ?thesis by (auto simp: intra_links_def)
  qed
qed

lemma groups_inv_big:
  fixes s0 :: "'f network"
  assumes inv: "groups_inv env s0 ps w" and vg: "valid_groups s0 (ps @ [(m, g)])"
    and adj: "adjacency_sound s0" and st: "store_ok s0" and bg: "big (m, g)"
  shows "groups_inv env s0 (ps @ [(m, g)]) (process_group env cd (m, g) w)"
proof -
  let ?w0 = "start_work s0"
  let ?w' = "process_group env cd (m, g) w"
  let ?n0 = "node_count s0"
  let ?qs = "ps @ [(m, g)]"
  from inv have nc: "node_count (w_net w) = ?n0 + nbig ps"
    and mx: "max_node_id (w_net w) = max_node_id s0 + int (nbig ps)"
    and mm: "max_main_node_id (w_net w) = max_main_node_id s0"
    and ld: "link_dict (w_net w) = link_dict s0"
    and no: "\<forall>r<?n0. node_objs (w_net w) r = node_objs s0 r"
    and li: "\<forall>l. link_id (link_objs (w_net w) l) = link_id (link_objs s0 l)"
    and et: "end_inv ps ?n0 (lto w) (lto ?w0) (lfrom ?w0) (inc_of ?w0)"
    and ef: "end_inv ps ?n0 (lfrom w) (lfrom ?w0) (lto ?w0) (out_of ?w0)"
    and rl: "set (removal_link_set w) = (\<Union>mg\<in>{mg \<in> set ps. big mg}. intra_links ?w0 (snd mg))"
    and rn: "set (removal_node_set w) = (\<Union>mg\<in>{mg \<in> set ps. big mg}. set (snd mg))"
    and nd: "node_dict (w_net w) = register_new (max_node_id s0) ?n0 (nbig ps) (node_dict s0)"
    and nn: "new_nodes_ok env s0 ps w"
    by (simp_all add: groups_inv_def)
  from valid_groups_snoc [OF vg] have fresh: "m \<notin> fst ` set ps"
    and dis: "\<forall>mg\<in>set ps. set (snd mg) \<inter> set g = {}"
    and reg: "\<forall>r\<in>set g. r \<in> registered s0" by blast+
  from reg st have small: "\<forall>n\<in>set g. n < ?n0" by (simp add: store_ok_def)
  have mo: "node_objs (w_net w) n = node_objs s0 n" if "n \<in> set g" for n
    using that small no by simp
  have mt: "(lto w l \<in> set g \<longleftrightarrow> lto ?w0 l \<in> set g) \<and> (lto ?w0 l \<in> set g \<longrightarrow> lto w l = lto ?w0 l)" for l
    using et dis small by (rule end_inv_member)
  have mf: "(lfrom w l \<in> set g \<longleftrightarrow> lfrom ?w0 l \<in> set g) \<and> (lfrom ?w0 l \<in> set g \<longrightarrow> lfrom w l = lfrom ?w0 l)" for l
    using ef dis small by (rule end_inv_member)
  have w0: "lto ?w0 l = to_node (link_objs s0 l)" "lfrom ?w0 l = from_node (link_objs s0 l)"
    "inc_of ?w0 n = incoming_link_list (node_objs s0 n)"
    "out_of ?w0 n = outgoing_link_list (node_objs s0 n)" for l n
    by (simp_all add: start_work_def)
  have len: "2 \<le> length g" using bg by (simp add: big_def)
  have lt: "\<forall>n\<in>set g. n < node_count (w_net w)" using small nc by auto
  have adjw: "adjacent_ok g w"
    unfolding adjacent_ok_def
  proof (intro ballI conjI)
    fix n l assume n: "n \<in> set g" and l: "l \<in> set (inc_of w n)"
    from l mo [OF n] have "l \<in> set (incoming_link_list (node_objs s0 n))" by simp
    with adj reg n have "lto ?w0 l = n" by (simp add: adjacency_sound_def w0)
    with mt [of l] n show "lto w l = n" by simp
  next
    fix n l assume n: "n \<in> set g" and l: "l \<in> set (out_of w n)"
    from l mo [OF n] have "l \<in> set (outgoing_link_list (node_objs s0 n))" by simp
    with adj reg n have "lfrom ?w0 l = n" by (simp add: adjacency_sound_def w0)
    with mf [of l] n show "lfrom w l = n" by simp
  qed
  note pg = process_group_big [OF len lt adjw, of env cd m]
  have a: "node_count (w_net w) = ?n0 + nbig ps" by (rule nc)
  have nq: "nbig ?qs = Suc (nbig ps)" using bg by (simp add: nbig_snoc)
  have uq: "{mg \<in> set ?qs. big mg} = insert (m, g) {mg \<in> set ps. big mg}" using bg by auto
  have c1: "node_count (w_net ?w') = ?n0 + nbig ?qs" using pg(1) by (simp add: a nq)
  have c2: "max_node_id (w_net ?w') = max_node_id s0 + int (nbig ?qs)"
    using pg(2) by (simp add: mx nq)
  have c3: "max_main_node_id (w_net ?w') = max_main_node_id s0" using pg(3) by (simp add: mm)
  have c4: "link_dict (w_net ?w') = link_dict s0" using pg(4) by (simp add: ld)
  have c5: "\<forall>r<?n0. node_objs (w_net ?w') r = node_objs s0 r"
    using pg(6) no by (simp add: a)
  have c6: "\<forall>l. link_id (link_objs (w_net ?w') l) = link_id (link_objs s0 l)"
    using pg(7) li by simp
  have inl: "lto w l \<in> set g \<Longrightarrow> inc_of w (lto w l) = inc_of ?w0 (lto w l)"
    and outl: "lfrom w l \<in> set g \<Longrightarrow> out_of w (lfrom w l) = out_of ?w0 (lfrom w l)" for l
    by (simp_all add: mo w0)
  have c7: "end_inv ?qs ?n0 (lto ?w') (lto ?w0) (lfrom ?w0) (inc_of ?w0)"
  proof (rule end_inv_step [OF et _ _ fresh dis small bg])
    show "\<And>l. lfrom w l \<in> set g \<longleftrightarrow> lfrom ?w0 l \<in> set g" using mf by blast
    show "\<And>l. lto ?w' l = (if lto w l \<in> set g \<and> lfrom w l \<notin> set g \<and> l \<in> set (inc_of ?w0 (lto w l))
                            then ?n0 + nbig ps else lto w l)"
      using pg(8) inl by (auto simp: a)
  qed
  have c8: "end_inv ?qs ?n0 (lfrom ?w') (lfrom ?w0) (lto ?w0) (out_of ?w0)"
  proof (rule end_inv_step [OF ef _ _ fresh dis small bg])
    show "\<And>l. lto w l \<in> set g \<longleftrightarrow> lto ?w0 l \<in> set g" using mt by blast
    show "\<And>l. lfrom ?w' l = (if lfrom w l \<in> set g \<and> lto w l \<notin> set g \<and> l \<in> set (out_of ?w0 (lfrom w l))
                            then ?n0 + nbig ps else lfrom w l)"
      using pg(9) outl by (auto simp: a)
  qed
  have il: "intra_links w g = intra_links ?w0 g"
    by (rule intra_links_member) (simp_all add: mf mt mo start_work_def)
  have c9: "set (removal_link_set ?w') = (\<Union>mg\<in>{mg \<in> set ?qs. big mg}. intra_links ?w0 (snd mg))"
    unfolding uq using pg(10) rl il by auto
  have c10: "set (removal_node_set ?w') = (\<Union>mg\<in>{mg \<in> set ?qs. big mg}. set (snd mg))"
    unfolding uq using pg(11) rn by auto
  have c11: "node_dict (w_net ?w') = register_new (max_node_id s0) ?n0 (nbig ?qs) (node_dict s0)"
    using pg(5) by (simp add: nq register_new_Suc nd mx a)
  have gs: "group_sums env (w_net w) g = group_sums env s0 g"
    by (rule group_sums_cong) (simp add: mo)
  have c12: "new_nodes_ok env s0 ?qs ?w'"
    unfolding new_nodes_ok_def
  proof (intro ballI impI)
    fix mg assume mg: "mg \<in> set ?qs" and b: "big mg"
    show "main_node_id (node_objs (w_net ?w') (new_ref ?qs s0 (fst mg))) = Some (fst mg)
        \<and> node_id (node_objs (w_net ?w') (new_ref ?qs s0 (fst mg))) = new_id ?qs s0 (fst mg)
        \<and> geometry (node_objs (w_net ?w') (new_ref ?qs s0 (fst mg))) = group_geometry env s0 (snd mg)
        \<and> geometry_xy (node_objs (w_net ?w') (new_ref ?qs s0 (fst mg)))
            = group_geometry_xy env s0 (snd mg)"
    proof (cases "mg \<in> set ps")
      case True
      then have ix: "new_ref ?qs s0 (fst mg) = new_ref ps s0 (fst mg)"
        "new_id ?qs s0 (fst mg) = new_id ps s0 (fst mg)"
        by (simp_all add: new_ref_def new_id_def new_index_old)
      from new_index_less [OF True b] have "new_ref ps s0 (fst mg) \<noteq> node_count (w_net w)"
        by (simp add: new_ref_def a)
      with pg(6) have "node_objs (w_net ?w') (new_ref ps s0 (fst mg))
          = node_objs (w_net w) (new_ref ps s0 (fst mg))" by simp
      with nn True b ix show ?thesis by (simp add: new_nodes_ok_def)
    next
      case False
      with mg have e: "mg = (m, g)" by simp
      have ix: "new_ref ?qs s0 m = node_count (w_net w)" "new_id ?qs s0 m = max_node_id (w_net w)"
        using fresh by (simp_all add: new_ref_def new_id_def new_index_new a mx)
      from pg(12,13,14,15) show ?thesis
        by (simp add: e ix gs group_geometry_def group_geometry_xy_def)
    qed
  qed
  from c1 c2 c3 c4 c5 c6 c7 c8 c9 c10 c11 c12 show ?thesis
    unfolding groups_inv_def by blast
qed

lemma processed_inv:
  fixes s0 :: "'f network"
  assumes vg: "valid_groups s0 gs" and adj: "adjacency_sound s0" and st: "store_ok s0"
  shows "groups_inv env s0 gs (processed env cd gs s0)"
  using vg
proof (induction gs rule: rev_induct)
  case Nil
  show ?case using groups_inv_start [of env s0] by (simp add: processed_def start_work_def)
next
  case (snoc mg ps)
  obtain m g where mg: "mg = (m, g)" by (cases mg)
  from snoc.prems mg have "valid_groups s0 ps" using valid_groups_snoc(1) by blast
  then have ih: "groups_inv env s0 ps (processed env cd ps s0)" by (rule snoc.IH)
  have pr: "processed env cd (ps @ [x]) s0 = process_group env cd x (processed env cd ps s0)" for x
    by (simp add: processed_def)
  show ?case
  proof (cases "big mg")
    case True
    with snoc.prems mg have "groups_inv env s0 (ps @ [(m, g)])
        (process_group env cd (m, g) (processed env cd ps s0))"
      by (intro groups_inv_big [OF ih _ adj st]) simp_all
    then show ?thesis by (simp only: mg pr)
  next
    case False
    then have "process_group env cd mg (processed env cd ps s0) = processed env cd ps s0"
      by (simp add: mg big_def process_group_small)
    with groups_inv_skip [OF ih False] show ?thesis by (simp add: pr)
  qed
qed

section \<open>The removal sets have no duplicates\<close>

lemma incoming_step_distinct: "sets_distinct w \<Longrightarrow> sets_distinct (incoming_step g a l w)"
  by (simp add: sets_distinct_def incoming_step_def Let_def)

lemma outgoing_step_distinct: "sets_distinct w \<Longrightarrow> sets_distinct (outgoing_step g a l w)"
  by (simp add: sets_distinct_def outgoing_step_def Let_def)

lemma incoming_fold_distinct:
  "sets_distinct w \<Longrightarrow> sets_distinct (fold (incoming_step g a) ls w)"
  by (induction ls arbitrary: w) (simp_all add: incoming_step_distinct)

lemma outgoing_fold_distinct:
  "sets_distinct w \<Longrightarrow> sets_distinct (fold (outgoing_step g a) ls w)"
  by (induction ls arbitrary: w) (simp_all add: outgoing_step_distinct)

lemma member_step_distinct:
  assumes "sets_distinct (fst ws)"
  shows "sets_distinct (fst (member_step env g a n ws))"
proof -
  let ?w1 = "(fst ws)\<lparr>removal_node_set := List.insert n (removal_node_set (fst ws))\<rparr>"
  let ?w2 = "fold (incoming_step g a) (inc_of ?w1 n) ?w1"
  let ?w3 = "fold (outgoing_step g a) (out_of ?w2 n) ?w2"
  from assms have "sets_distinct ?w1" by (simp add: sets_distinct_def)
  then have "sets_distinct ?w2" by (rule incoming_fold_distinct)
  then have "sets_distinct ?w3" by (rule outgoing_fold_distinct)
  then show ?thesis by (simp add: member_step_def Let_def sets_distinct_def)
qed

lemma member_fold_distinct:
  "sets_distinct (fst ws) \<Longrightarrow> sets_distinct (fst (fold (member_step env g a) ns ws))"
  by (induction ns arbitrary: ws) (simp_all add: member_step_distinct)

lemma process_group_distinct:
  fixes w :: "'f work" and env :: "'f py_env"
  assumes "sets_distinct w"
  shows "sets_distinct (process_group env cd mg w)"
proof (cases "length (snd mg) < 2")
  case True
  with assms show ?thesis by (simp add: process_group_def)
next
  case False
  have "sets_distinct (fst (fold (member_step env g a) g (w0, s)))"
    if "removal_node_set w0 = removal_node_set w" "removal_link_set w0 = removal_link_set w"
    for w0 :: "'f work" and s :: "'f coord_sums" and g a
    using that assms by (intro member_fold_distinct) (simp add: sets_distinct_def)
  with False show ?thesis
    by (simp add: process_group_def Let_def sets_distinct_def)
qed

lemma processed_distinct: "sets_distinct (processed env cd gs net)"
proof -
  have "sets_distinct (fold (process_group env cd) gs w)" if "sets_distinct w" for w
    using that by (induction gs arbitrary: w) (simp_all add: process_group_distinct)
  then show ?thesis by (simp add: processed_def sets_distinct_def)
qed

section \<open>The deferred deletions\<close>

lemma delete_nodes_ok:
  assumes "distinct (map (\<lambda>r. node_id (node_objs net r)) rs)"
    and "(\<lambda>r. node_id (node_objs net r)) ` set rs \<subseteq> fst ` set (node_dict net)"
  shows "delete_nodes rs net =
           Inr (net\<lparr>node_dict := filter (\<lambda>kv. fst kv \<notin> (\<lambda>r. node_id (node_objs net r)) ` set rs)
                                    (node_dict net)\<rparr>)"
  using assms
proof (induction rs arbitrary: net)
  case Nil
  show ?case by simp
next
  case (Cons r rs)
  let ?k = "node_id (node_objs net r)"
  let ?net = "net\<lparr>node_dict := AList.delete ?k (node_dict net)\<rparr>"
  from Cons.prems have k: "?k \<in> fst ` set (node_dict net)" by simp
  have d: "AList.delete ?k (node_dict net) = filter (\<lambda>kv. fst kv \<noteq> ?k) (node_dict net)"
    by (auto simp: AList.delete_eq case_prod_unfold intro: filter_cong)
  have "delete_nodes rs ?net = Inr (?net\<lparr>node_dict :=
      filter (\<lambda>kv. fst kv \<notin> (\<lambda>r. node_id (node_objs ?net r)) ` set rs) (node_dict ?net)\<rparr>)"
  proof (rule Cons.IH)
    show "distinct (map (\<lambda>r. node_id (node_objs ?net r)) rs)" using Cons.prems(1) by simp
    show "(\<lambda>r. node_id (node_objs ?net r)) ` set rs \<subseteq> fst ` set (node_dict ?net)"
    proof
      fix k assume "k \<in> (\<lambda>r. node_id (node_objs ?net r)) ` set rs"
      then obtain x where x: "x \<in> set rs" "k = node_id (node_objs net x)" by auto
      from Cons.prems(1) have nin: "?k \<notin> set (map (\<lambda>r. node_id (node_objs net r)) rs)" by simp
      have ne: "k \<noteq> ?k"
      proof
        assume e: "k = ?k"
        from x(1) have "node_id (node_objs net x) \<in> set (map (\<lambda>r. node_id (node_objs net r)) rs)"
          by simp
        with x(2) e nin show False by simp
      qed
      from x Cons.prems(2) obtain v where "(k, v) \<in> set (node_dict net)" by auto
      with ne have "(k, v) \<in> set (filter (\<lambda>kv. fst kv \<noteq> ?k) (node_dict net))" by simp
      then have "fst (k, v) \<in> fst ` set (filter (\<lambda>kv. fst kv \<noteq> ?k) (node_dict net))"
        by (rule imageI)
      then show "k \<in> fst ` set (node_dict ?net)" by (simp add: d)
    qed
  qed
  moreover have "filter (\<lambda>kv. fst kv \<notin> (\<lambda>r. node_id (node_objs net r)) ` set rs)
                   (filter (\<lambda>kv. fst kv \<noteq> ?k) (node_dict net))
      = filter (\<lambda>kv. fst kv \<notin> (\<lambda>r. node_id (node_objs net r)) ` set (r # rs)) (node_dict net)"
    by (auto intro: filter_cong)
  ultimately show ?case using k by (simp add: dict_del_def d)
qed

lemma delete_links_ok:
  assumes "distinct (map (\<lambda>l. link_id (link_objs net l)) ls)"
    and "(\<lambda>l. link_id (link_objs net l)) ` set ls \<subseteq> fst ` set (link_dict net)"
  shows "delete_links ls net =
           Inr (net\<lparr>link_dict := filter (\<lambda>kv. fst kv \<notin> (\<lambda>l. link_id (link_objs net l)) ` set ls)
                                    (link_dict net)\<rparr>)"
  using assms
proof (induction ls arbitrary: net)
  case Nil
  show ?case by simp
next
  case (Cons l ls)
  let ?k = "link_id (link_objs net l)"
  let ?net = "net\<lparr>link_dict := AList.delete ?k (link_dict net)\<rparr>"
  from Cons.prems have k: "?k \<in> fst ` set (link_dict net)" by simp
  have d: "AList.delete ?k (link_dict net) = filter (\<lambda>kv. fst kv \<noteq> ?k) (link_dict net)"
    by (auto simp: AList.delete_eq case_prod_unfold intro: filter_cong)
  have "delete_links ls ?net = Inr (?net\<lparr>link_dict :=
      filter (\<lambda>kv. fst kv \<notin> (\<lambda>l. link_id (link_objs ?net l)) ` set ls) (link_dict ?net)\<rparr>)"
  proof (rule Cons.IH)
    show "distinct (map (\<lambda>l. link_id (link_objs ?net l)) ls)" using Cons.prems(1) by simp
    show "(\<lambda>l. link_id (link_objs ?net l)) ` set ls \<subseteq> fst ` set (link_dict ?net)"
    proof
      fix k assume "k \<in> (\<lambda>l. link_id (link_objs ?net l)) ` set ls"
      then obtain x where x: "x \<in> set ls" "k = link_id (link_objs net x)" by auto
      from Cons.prems(1) have nin: "?k \<notin> set (map (\<lambda>l. link_id (link_objs net l)) ls)" by simp
      have ne: "k \<noteq> ?k"
      proof
        assume e: "k = ?k"
        from x(1) have "link_id (link_objs net x) \<in> set (map (\<lambda>l. link_id (link_objs net l)) ls)"
          by simp
        with x(2) e nin show False by simp
      qed
      from x Cons.prems(2) obtain v where "(k, v) \<in> set (link_dict net)" by auto
      with ne have "(k, v) \<in> set (filter (\<lambda>kv. fst kv \<noteq> ?k) (link_dict net))" by simp
      then have "fst (k, v) \<in> fst ` set (filter (\<lambda>kv. fst kv \<noteq> ?k) (link_dict net))"
        by (rule imageI)
      then show "k \<in> fst ` set (link_dict ?net)" by (simp add: d)
    qed
  qed
  moreover have "filter (\<lambda>kv. fst kv \<notin> (\<lambda>l. link_id (link_objs net l)) ` set ls)
                   (filter (\<lambda>kv. fst kv \<noteq> ?k) (link_dict net))
      = filter (\<lambda>kv. fst kv \<notin> (\<lambda>l. link_id (link_objs net l)) ` set (l # ls)) (link_dict net)"
    by (auto intro: filter_cong)
  ultimately show ?case using k by (simp add: dict_del_def d)
qed

section \<open>The dictionary of groups\<close>

lemma update_absent: "k \<notin> fst ` set al \<Longrightarrow> AList.update k v al = al @ [(k, v)]"
  by (induction al) auto

lemma fst_group_step:
  "fst (group_step net kr dd) =
     (case main_node_id (node_objs net (snd kr)) of
        None \<Rightarrow> fst dd
      | Some m \<Rightarrow> if m \<in> fst ` set (fst dd) then dict_append m (snd kr) (fst dd)
                  else AList.update m [snd kr] (fst dd))"
  by (simp add: group_step_def Let_def split: option.splits)

lemma groups_ok_step:
  assumes ok: "groups_ok net xs (fst dd)"
  shows "groups_ok net (xs @ [kr]) (fst (group_step net kr dd))"
proof (cases "main_node_id (node_objs net (snd kr))")
  case None
  then have "members_of net (xs @ [kr]) m = members_of net xs m" for m
    by (simp add: members_of_def)
  with ok None show ?thesis by (simp add: fst_group_step groups_ok_def)
next
  case (Some m0)
  let ?gd = "fst dd"
  from ok have dist: "distinct (map fst ?gd)"
    and ch: "\<And>m g. (m, g) \<in> set ?gd \<longleftrightarrow> g = members_of net xs m \<and> g \<noteq> []"
    by (simp_all add: groups_ok_def)
  have mem: "members_of net (xs @ [kr]) m
      = (if m = m0 then members_of net xs m @ [snd kr] else members_of net xs m)" for m
    using Some by (simp add: members_of_def)
  show ?thesis
  proof (cases "m0 \<in> fst ` set ?gd")
    case True
    have st: "fst (group_step net kr dd) = dict_append m0 (snd kr) ?gd"
      using Some True by (simp add: fst_group_step)
    have keys: "map fst (dict_append m0 (snd kr) ?gd) = map fst ?gd"
      by (simp add: dict_append_def case_prod_unfold comp_def)
    have "(m, g) \<in> set (dict_append m0 (snd kr) ?gd)
        \<longleftrightarrow> g = members_of net (xs @ [kr]) m \<and> g \<noteq> []" for m g
    proof -
      have "(m, g) \<in> set (dict_append m0 (snd kr) ?gd)
          \<longleftrightarrow> (if m = m0 then \<exists>g'. (m, g') \<in> set ?gd \<and> g = g' @ [snd kr] else (m, g) \<in> set ?gd)"
      proof
        assume "(m, g) \<in> set (dict_append m0 (snd kr) ?gd)"
        then obtain k g' where "(k, g') \<in> set ?gd"
          "(m, g) = (if k = m0 then (k, g' @ [snd kr]) else (k, g'))"
          by (auto simp: dict_append_def)
        then show "if m = m0 then \<exists>g'. (m, g') \<in> set ?gd \<and> g = g' @ [snd kr] else (m, g) \<in> set ?gd"
          by (auto split: if_splits)
      next
        assume r: "if m = m0 then \<exists>g'. (m, g') \<in> set ?gd \<and> g = g' @ [snd kr] else (m, g) \<in> set ?gd"
        show "(m, g) \<in> set (dict_append m0 (snd kr) ?gd)"
        proof (cases "m = m0")
          case True
          with r obtain g' where "(m0, g') \<in> set ?gd" "g = g' @ [snd kr]" by auto
          then have "(\<lambda>(k, g). if k = m0 then (k, g @ [snd kr]) else (k, g)) (m0, g') = (m, g)"
            "(m0, g') \<in> set ?gd" using True by simp_all
          then show ?thesis unfolding dict_append_def set_map by (rule image_eqI [OF sym])
        next
          case False
          with r have "(\<lambda>(k, g). if k = m0 then (k, g @ [snd kr]) else (k, g)) (m, g) = (m, g)"
            "(m, g) \<in> set ?gd" by simp_all
          then show ?thesis unfolding dict_append_def set_map by (rule image_eqI [OF sym])
        qed
      qed
      also have "\<dots> \<longleftrightarrow> g = members_of net (xs @ [kr]) m \<and> g \<noteq> []"
      proof (cases "m = m0")
        case True
        from \<open>m0 \<in> fst ` set ?gd\<close> obtain g0 where "(m0, g0) \<in> set ?gd" by auto
        with ch [of m0 g0] have "members_of net xs m0 \<noteq> []" by blast
        with True ch [of m0] show ?thesis by (auto simp: mem)
      next
        case False
        with ch [of m g] show ?thesis by (simp add: mem)
      qed
      finally show ?thesis .
    qed
    with dist keys show ?thesis by (simp add: st groups_ok_def)
  next
    case False
    have st: "fst (group_step net kr dd) = ?gd @ [(m0, [snd kr])]"
      using Some False by (simp add: fst_group_step update_absent)
    have e: "members_of net xs m0 = []"
    proof (rule ccontr)
      assume "members_of net xs m0 \<noteq> []"
      with ch [of m0 "members_of net xs m0"] have "(m0, members_of net xs m0) \<in> set ?gd" by simp
      with False show False by force
    qed
    have "(m, g) \<in> set (?gd @ [(m0, [snd kr])])
        \<longleftrightarrow> g = members_of net (xs @ [kr]) m \<and> g \<noteq> []" for m g
    proof (cases "m = m0")
      case True
      have "(m0, g) \<notin> set ?gd" using False by force
      with True e show ?thesis by (auto simp: mem)
    next
      case False
      with ch [of m g] show ?thesis by (simp add: mem)
    qed
    with dist False show ?thesis by (simp add: st groups_ok_def)
  qed
qed

lemma groups_ok_fold: "groups_ok net xs (fst (fold (group_step net) xs ([], [])))"
proof (induction xs rule: rev_induct)
  case Nil
  show ?case by (simp add: groups_ok_def members_of_def)
next
  case (snoc kr xs)
  from groups_ok_step [OF snoc.IH, of kr] show ?case by simp
qed

lemma node_groups_ok: "groups_ok net (node_dict net) (fst (node_groups net))"
  by (simp add: node_groups_def groups_ok_fold)

lemma node_groups_iff:
  "(m, g) \<in> set (fst (node_groups net)) \<longleftrightarrow> g = group_of net m \<and> g \<noteq> []"
  using node_groups_ok [of net] by (simp add: groups_ok_def group_of_def)

lemma node_groups_valid: "valid_groups net (fst (node_groups net))"
proof -
  have "r \<in> registered net \<and> main_node_id (node_objs net r) = Some (fst mg)"
    if "mg \<in> set (fst (node_groups net))" "r \<in> set (snd mg)" for mg r
  proof -
    from that(1) have "snd mg = group_of net (fst mg)"
      using node_groups_iff [of "fst mg" "snd mg" net] by simp
    with that(2) show ?thesis
      by (auto simp: group_of_def members_of_def registered_def)
  qed
  with node_groups_ok [of net] show ?thesis
    by (simp add: valid_groups_def groups_ok_def)
qed

section \<open>Well-formed networks and the result of consolidation\<close>

lemma register_new_keys:
  "fst ` set (register_new k0 n0 n d) = fst ` set d \<union> (\<lambda>i. k0 + int i) ` {..<n}"
proof (induction n)
  case 0
  show ?case by (simp add: register_new_def)
next
  case (Suc n)
  have "{..<Suc n} = insert n {..<n}" by auto
  with Suc show ?case by (simp add: register_new_Suc dom_update)
qed

lemma key_unique:
  "distinct (map fst xs) \<Longrightarrow> (k, a) \<in> set xs \<Longrightarrow> (k, b) \<in> set xs \<Longrightarrow> a = b"
  by (rule eq_key_imp_eq_value)

lemma merged_nodes_registered:
  "valid_groups net gs \<Longrightarrow> r \<in> merged_nodes gs \<Longrightarrow> r \<in> registered net"
  by (auto simp: valid_groups_def merged_nodes_def)

lemma registered_entry:
  "dicts_keyed net \<Longrightarrow> r \<in> registered net \<Longrightarrow> (node_id (node_objs net r), r) \<in> set (node_dict net)"
  by (auto simp: dicts_keyed_def registered_def)

lemma registered_link_entry:
  "dicts_keyed net \<Longrightarrow> l \<in> snd ` set (link_dict net)
     \<Longrightarrow> (link_id (link_objs net l), l) \<in> set (link_dict net)"
  by (auto simp: dicts_keyed_def)

lemma merged_links_registered:
  assumes vg: "valid_groups net gs" and ad: "adjacency_in_dict net" and l: "l \<in> merged_links net gs"
  shows "l \<in> snd ` set (link_dict net)"
proof -
  from l obtain mg where mg: "mg \<in> set gs" "l \<in> intra_links (start_work net) (snd mg)"
    by (auto simp: merged_links_def)
  then have f: "from_node (link_objs net l) \<in> set (snd mg)"
    and t: "to_node (link_objs net l) \<in> set (snd mg)"
    and d: "l \<in> set (incoming_link_list (node_objs net (to_node (link_objs net l))))
          \<or> l \<in> set (outgoing_link_list (node_objs net (from_node (link_objs net l))))"
    by (simp_all add: intra_links_def start_work_def)
  from vg mg(1) f t have "from_node (link_objs net l) \<in> registered net"
    "to_node (link_objs net l) \<in> registered net"
    by (simp_all add: valid_groups_def)
  with ad d show ?thesis unfolding adjacency_in_dict_def by blast
qed

text \<open>
  On a well-formed network no deletion fails, and the result is the state after the
  loop over the groups with the merged nodes and the links inside groups removed from
  the dictionaries.
\<close>

lemma consolidate_groups_result:
  fixes s0 :: "'f network"
  assumes wf: "well_formed s0" and vg: "valid_groups s0 gs"
  shows "consolidate_groups env cd gs s0 =
     Inr ((w_net (processed env cd gs s0))
       \<lparr>node_dict := filter (\<lambda>kv. fst kv \<notin> (\<lambda>r. node_id (node_objs s0 r)) ` merged_nodes gs)
            (register_new (max_node_id s0) (node_count s0) (nbig gs) (node_dict s0)),
        link_dict := filter (\<lambda>kv. snd kv \<notin> merged_links s0 gs) (link_dict s0)\<rparr>)"
proof -
  let ?W = "processed env cd gs s0"
  let ?net = "w_net ?W"
  from wf have dk: "dicts_keyed s0" and so: "store_ok s0" and as: "adjacency_sound s0"
    and ad: "adjacency_in_dict s0" by (simp_all add: well_formed_def)
  from processed_inv [OF vg as so, of env cd]
  have no: "\<forall>r<node_count s0. node_objs ?net r = node_objs s0 r"
    and li: "\<forall>l. link_id (link_objs ?net l) = link_id (link_objs s0 l)"
    and ld: "link_dict ?net = link_dict s0"
    and rl: "set (removal_link_set ?W) = merged_links s0 gs"
    and rn: "set (removal_node_set ?W) = merged_nodes gs"
    and nd: "node_dict ?net = register_new (max_node_id s0) (node_count s0) (nbig gs) (node_dict s0)"
    by (simp_all add: groups_inv_def merged_links_def merged_nodes_def)
  from processed_distinct [of env cd gs s0]
  have dn: "distinct (removal_node_set ?W)" and dl: "distinct (removal_link_set ?W)"
    by (simp_all add: sets_distinct_def)
  have reg: "r \<in> registered s0" if "r \<in> merged_nodes gs" for r
    using vg that by (rule merged_nodes_registered)
  have idr: "node_id (node_objs ?net r) = node_id (node_objs s0 r)" if "r \<in> merged_nodes gs" for r
    using reg [OF that] so no by (simp add: store_ok_def)
  have ids: "(\<lambda>r. node_id (node_objs ?net r)) ` merged_nodes gs
      = (\<lambda>r. node_id (node_objs s0 r)) ` merged_nodes gs"
    using idr by (auto intro: image_cong)
  have inj: "inj_on (\<lambda>r. node_id (node_objs ?net r)) (merged_nodes gs)"
  proof (rule inj_onI)
    fix r r' assume r: "r \<in> merged_nodes gs" "r' \<in> merged_nodes gs"
      and e: "node_id (node_objs ?net r) = node_id (node_objs ?net r')"
    from registered_entry [OF dk reg [OF r(1)]] registered_entry [OF dk reg [OF r(2)]] e
      idr [OF r(1)] idr [OF r(2)]
    have "(node_id (node_objs s0 r), r) \<in> set (node_dict s0)"
      "(node_id (node_objs s0 r), r') \<in> set (node_dict s0)" by simp_all
    with dk show "r = r'" unfolding dicts_keyed_def by (blast intro: key_unique)
  qed
  have n1: "distinct (map (\<lambda>r. node_id (node_objs ?net r)) (removal_node_set ?W))"
    using dn inj by (simp add: distinct_map rn)
  have n2: "(\<lambda>r. node_id (node_objs ?net r)) ` set (removal_node_set ?W) \<subseteq> fst ` set (node_dict ?net)"
  proof
    fix k assume "k \<in> (\<lambda>r. node_id (node_objs ?net r)) ` set (removal_node_set ?W)"
    then obtain r where r: "r \<in> merged_nodes gs" "k = node_id (node_objs s0 r)"
      using idr by (auto simp: rn)
    from registered_entry [OF dk reg [OF r(1)]] r(2) have "k \<in> fst ` set (node_dict s0)"
      by force
    then show "k \<in> fst ` set (node_dict ?net)" by (simp add: nd register_new_keys)
  qed
  let ?net2 = "?net\<lparr>node_dict := filter (\<lambda>kv. fst kv \<notin> (\<lambda>r. node_id (node_objs s0 r)) ` merged_nodes gs)
            (register_new (max_node_id s0) (node_count s0) (nbig gs) (node_dict s0))\<rparr>"
  from delete_nodes_ok [OF n1 n2]
  have del1: "delete_nodes (removal_node_set ?W) ?net = Inr ?net2"
    by (simp add: rn ids nd)
  have lreg: "l \<in> snd ` set (link_dict s0)" if "l \<in> merged_links s0 gs" for l
    using vg ad that by (rule merged_links_registered)
  have linj: "inj_on (\<lambda>l. link_id (link_objs s0 l)) (merged_links s0 gs)"
  proof (rule inj_onI)
    fix l l' assume l: "l \<in> merged_links s0 gs" "l' \<in> merged_links s0 gs"
      and e: "link_id (link_objs s0 l) = link_id (link_objs s0 l')"
    from registered_link_entry [OF dk lreg [OF l(1)]] registered_link_entry [OF dk lreg [OF l(2)]] e
    have "(link_id (link_objs s0 l), l) \<in> set (link_dict s0)"
      "(link_id (link_objs s0 l), l') \<in> set (link_dict s0)" by simp_all
    with dk show "l = l'" unfolding dicts_keyed_def by (blast intro: key_unique)
  qed
  have l1: "distinct (map (\<lambda>l. link_id (link_objs ?net2 l)) (removal_link_set ?W))"
    using dl linj li by (simp add: distinct_map rl)
  have l2: "(\<lambda>l. link_id (link_objs ?net2 l)) ` set (removal_link_set ?W) \<subseteq> fst ` set (link_dict ?net2)"
  proof
    fix k assume "k \<in> (\<lambda>l. link_id (link_objs ?net2 l)) ` set (removal_link_set ?W)"
    then obtain l where l: "l \<in> merged_links s0 gs" "k = link_id (link_objs s0 l)"
      using li by (auto simp: rl)
    from registered_link_entry [OF dk lreg [OF l(1)]] l(2) have "k \<in> fst ` set (link_dict s0)"
      by force
    then show "k \<in> fst ` set (link_dict ?net2)" by (simp add: ld)
  qed
  have fl: "filter (\<lambda>kv. fst kv \<notin> (\<lambda>l. link_id (link_objs s0 l)) ` merged_links s0 gs) (link_dict s0)
      = filter (\<lambda>kv. snd kv \<notin> merged_links s0 gs) (link_dict s0)"
  proof (rule filter_cong [OF refl])
    fix kv assume kv: "kv \<in> set (link_dict s0)"
    with dk have k: "link_id (link_objs s0 (snd kv)) = fst kv" by (simp add: dicts_keyed_def)
    show "(fst kv \<notin> (\<lambda>l. link_id (link_objs s0 l)) ` merged_links s0 gs)
        \<longleftrightarrow> (snd kv \<notin> merged_links s0 gs)"
    proof
      assume a: "fst kv \<notin> (\<lambda>l. link_id (link_objs s0 l)) ` merged_links s0 gs"
      show "snd kv \<notin> merged_links s0 gs"
      proof
        assume "snd kv \<in> merged_links s0 gs"
        then have "link_id (link_objs s0 (snd kv)) \<in> (\<lambda>l. link_id (link_objs s0 l)) ` merged_links s0 gs"
          by (rule imageI)
        with a k show False by simp
      qed
    next
      assume a: "snd kv \<notin> merged_links s0 gs"
      show "fst kv \<notin> (\<lambda>l. link_id (link_objs s0 l)) ` merged_links s0 gs"
      proof
        assume "fst kv \<in> (\<lambda>l. link_id (link_objs s0 l)) ` merged_links s0 gs"
        then obtain l where l: "l \<in> merged_links s0 gs" "fst kv = link_id (link_objs s0 l)" by auto
        from registered_link_entry [OF dk lreg [OF l(1)]] l(2)
        have "(fst kv, l) \<in> set (link_dict s0)" by simp
        moreover from kv have "(fst kv, snd kv) \<in> set (link_dict s0)" by simp
        ultimately have "l = snd kv" using dk unfolding dicts_keyed_def by (blast intro: key_unique)
        with l(1) a show False by simp
      qed
    qed
  qed
  have A: "(\<lambda>l. link_id (link_objs ?net2 l)) ` set (removal_link_set ?W)
      = (\<lambda>l. link_id (link_objs s0 l)) ` merged_links s0 gs"
    using li by (simp add: rl)
  have B: "link_dict ?net2 = link_dict s0" by (simp add: ld)
  have del2: "delete_links (removal_link_set ?W) ?net2
      = Inr (?net2\<lparr>link_dict := filter (\<lambda>kv. snd kv \<notin> merged_links s0 gs) (link_dict s0)\<rparr>)"
    using delete_links_ok [OF l1 l2] unfolding A B fl .
  show ?thesis
    unfolding consolidate_groups_def Let_def del1 using del2 by simp
qed

section \<open>The whole function\<close>

lemma consolidate_unfold:
  "consolidateComplexIntersections env network auto_identify int_buffer =
     consolidate_groups env (snd (node_groups (detected network auto_identify int_buffer)))
       (group_dict (detected network auto_identify int_buffer))
       (detected network auto_identify int_buffer)"
  by (simp add: consolidateComplexIntersections_def detected_def group_dict_def Let_def)

lemma detect_node_fields:
  "node_id (node_objs (identifyComplexIntersections net t) r) = node_id (node_objs net r)"
  "incoming_link_list (node_objs (identifyComplexIntersections net t) r)
     = incoming_link_list (node_objs net r)"
  "outgoing_link_list (node_objs (identifyComplexIntersections net t) r)
     = outgoing_link_list (node_objs net r)"
  "geometry (node_objs (identifyComplexIntersections net t) r) = geometry (node_objs net r)"
  "geometry_xy (node_objs (identifyComplexIntersections net t) r) = geometry_xy (node_objs net r)"
  by (subst detect_objs, subst assigned_only_main, simp)+

lemma detect_frame:
  "node_dict (identifyComplexIntersections net t) = node_dict net"
  "node_count (identifyComplexIntersections net t) = node_count net"
  "max_node_id (identifyComplexIntersections net t) = max_node_id net"
  by (simp_all add: identifyComplexIntersections_def assign_ids_frame)

lemma well_formed_detect:
  "well_formed net \<Longrightarrow> well_formed (identifyComplexIntersections net t)"
  by (simp add: well_formed_def dicts_keyed_def store_ok_def adjacency_sound_def
      adjacency_in_dict_def adjacency_complete_def endpoints_registered_def registered_def
      detect_node_fields detect_frame detect_fields)

lemma well_formed_detected: "well_formed net \<Longrightarrow> well_formed (detected net a t)"
  by (simp add: detected_def well_formed_detect)

lemma group_dict_iff: "(m, g) \<in> set (group_dict net) \<longleftrightarrow> g = group_of net m \<and> g \<noteq> []"
  by (simp add: group_dict_def node_groups_iff)

lemma group_dict_valid: "valid_groups net (group_dict net)"
  by (simp add: group_dict_def node_groups_valid)

lemma group_dict_big:
  "2 \<le> length (group_of net m) \<Longrightarrow> (m, group_of net m) \<in> set (group_dict net) \<and> big (m, group_of net m)"
  by (auto simp: group_dict_iff big_def)

text \<open>The new entries of the node dictionary.\<close>

lemma update_member: "(k, v) \<in> set (AList.update k v al)"
  by (induction al) auto

lemma update_keeps: "(k', v') \<in> set al \<Longrightarrow> k' \<noteq> k \<Longrightarrow> (k', v') \<in> set (AList.update k v al)"
  by (induction al) auto

lemma update_subset: "set (AList.update k v al) \<subseteq> insert (k, v) (set al)"
  by (induction al) auto

lemma register_new_member:
  "i < n \<Longrightarrow> (k0 + int i, n0 + i) \<in> set (register_new k0 n0 n d)"
proof (induction n)
  case 0
  then show ?case by simp
next
  case (Suc n)
  show ?case
  proof (cases "i = n")
    case True
    then show ?thesis by (simp add: register_new_Suc update_member)
  next
    case False
    with Suc have "(k0 + int i, n0 + i) \<in> set (register_new k0 n0 n d)" by simp
    moreover from False Suc.prems have "k0 + int i \<noteq> k0 + int n" by simp
    ultimately show ?thesis by (simp add: register_new_Suc update_keeps)
  qed
qed

lemma register_new_keeps:
  "(k, r) \<in> set d \<Longrightarrow> \<forall>i<n. k \<noteq> k0 + int i \<Longrightarrow> (k, r) \<in> set (register_new k0 n0 n d)"
  by (induction n) (simp_all add: register_new_def update_keeps)

lemma register_new_subset:
  "(k, v) \<in> set (register_new k0 n0 n d)
     \<Longrightarrow> (k, v) \<in> set d \<or> (\<exists>i<n. k = k0 + int i \<and> v = n0 + i)"
proof (induction n)
  case 0
  then show ?case by (simp add: register_new_def)
next
  case (Suc n)
  from Suc.prems update_subset [of "k0 + int n" "n0 + n" "register_new k0 n0 n d"]
  have "(k, v) = (k0 + int n, n0 + n) \<or> (k, v) \<in> set (register_new k0 n0 n d)"
    by (auto simp: register_new_Suc)
  with Suc.IH show ?case by (auto simp: less_Suc_eq)
qed

lemma consolidated_fields:
  "node_objs (consolidated env cd gs s0) = node_objs (w_net (processed env cd gs s0))"
  "link_objs (consolidated env cd gs s0) = link_objs (w_net (processed env cd gs s0))"
  "link_dict (consolidated env cd gs s0)
     = filter (\<lambda>kv. snd kv \<notin> merged_links s0 gs) (link_dict s0)"
  "node_dict (consolidated env cd gs s0)
     = filter (\<lambda>kv. fst kv \<notin> (\<lambda>r. node_id (node_objs s0 r)) ` merged_nodes gs)
            (register_new (max_node_id s0) (node_count s0) (nbig gs) (node_dict s0))"
  by (simp_all add: consolidated_def)

lemma consolidate_groups_eq:
  "well_formed s0 \<Longrightarrow> valid_groups s0 gs
     \<Longrightarrow> consolidate_groups env cd gs s0 = Inr (consolidated env cd gs s0)"
  by (simp add: consolidate_groups_result consolidated_def)

lemma in_group_main: "in_group net m r \<Longrightarrow> main_node_id (node_objs net r) = Some m"
  by (simp add: in_group_def group_of_def members_of_def)


lemma consolidated_new_node:
  fixes s0 :: "'f network"
  assumes wf: "well_formed s0" and vg: "valid_groups s0 gs" and mg: "mg \<in> set gs" "big mg"
  shows "main_node_id (node_objs (consolidated env cd gs s0) (new_ref gs s0 (fst mg))) = Some (fst mg)"
    and "node_id (node_objs (consolidated env cd gs s0) (new_ref gs s0 (fst mg))) = new_id gs s0 (fst mg)"
    and "geometry (node_objs (consolidated env cd gs s0) (new_ref gs s0 (fst mg)))
           = group_geometry env s0 (snd mg)"
    and "geometry_xy (node_objs (consolidated env cd gs s0) (new_ref gs s0 (fst mg)))
           = group_geometry_xy env s0 (snd mg)"
    and "new_ref gs s0 (fst mg) \<notin> registered s0"
    and "new_index gs (fst mg) < nbig gs"
proof -
  from wf have as: "adjacency_sound s0" and so: "store_ok s0" by (simp_all add: well_formed_def)
  from processed_inv [OF vg as so, of env cd]
  have "new_nodes_ok env s0 gs (processed env cd gs s0)" by (simp add: groups_inv_def)
  with mg show "main_node_id (node_objs (consolidated env cd gs s0) (new_ref gs s0 (fst mg))) = Some (fst mg)"
    and "node_id (node_objs (consolidated env cd gs s0) (new_ref gs s0 (fst mg))) = new_id gs s0 (fst mg)"
    and "geometry (node_objs (consolidated env cd gs s0) (new_ref gs s0 (fst mg)))
           = group_geometry env s0 (snd mg)"
    and "geometry_xy (node_objs (consolidated env cd gs s0) (new_ref gs s0 (fst mg)))
           = group_geometry_xy env s0 (snd mg)"
    by (simp_all add: new_nodes_ok_def consolidated_fields)
  show "new_ref gs s0 (fst mg) \<notin> registered s0"
  proof
    assume "new_ref gs s0 (fst mg) \<in> registered s0"
    with so have "new_ref gs s0 (fst mg) < node_count s0" by (simp add: store_ok_def)
    then show False by (simp add: new_ref_def)
  qed
  show "new_index gs (fst mg) < nbig gs" using mg by (rule new_index_less)
qed

lemma consolidated_endpoints:
  fixes s0 :: "'f network"
  assumes wf: "well_formed s0" and vg: "valid_groups s0 gs"
  shows "mg \<in> set gs \<Longrightarrow> big mg \<Longrightarrow> to_node (link_objs s0 l) \<in> set (snd mg)
           \<Longrightarrow> from_node (link_objs s0 l) \<notin> set (snd mg)
           \<Longrightarrow> l \<in> set (incoming_link_list (node_objs s0 (to_node (link_objs s0 l))))
           \<Longrightarrow> to_node (link_objs (consolidated env cd gs s0) l) = new_ref gs s0 (fst mg)"
    and "mg \<in> set gs \<Longrightarrow> big mg \<Longrightarrow> from_node (link_objs s0 l) \<in> set (snd mg)
           \<Longrightarrow> to_node (link_objs s0 l) \<notin> set (snd mg)
           \<Longrightarrow> l \<in> set (outgoing_link_list (node_objs s0 (from_node (link_objs s0 l))))
           \<Longrightarrow> from_node (link_objs (consolidated env cd gs s0) l) = new_ref gs s0 (fst mg)"
    and "to_node (link_objs (consolidated env cd gs s0) l) = to_node (link_objs s0 l)
         \<or> (\<exists>mg\<in>set gs. big mg \<and> to_node (link_objs s0 l) \<in> set (snd mg)
               \<and> from_node (link_objs s0 l) \<notin> set (snd mg)
               \<and> to_node (link_objs (consolidated env cd gs s0) l) = new_ref gs s0 (fst mg))"
    and "from_node (link_objs (consolidated env cd gs s0) l) = from_node (link_objs s0 l)
         \<or> (\<exists>mg\<in>set gs. big mg \<and> from_node (link_objs s0 l) \<in> set (snd mg)
               \<and> to_node (link_objs s0 l) \<notin> set (snd mg)
               \<and> from_node (link_objs (consolidated env cd gs s0) l) = new_ref gs s0 (fst mg))"
proof -
  let ?w0 = "start_work s0" and ?W = "processed env cd gs s0"
  from wf have as: "adjacency_sound s0" and so: "store_ok s0" by (simp_all add: well_formed_def)
  from processed_inv [OF vg as so, of env cd]
  have et: "end_inv gs (node_count s0) (lto ?W) (lto ?w0) (lfrom ?w0) (inc_of ?w0)"
    and ef: "end_inv gs (node_count s0) (lfrom ?W) (lfrom ?w0) (lto ?w0) (out_of ?w0)"
    by (simp_all add: groups_inv_def)
  have w0: "lto ?w0 l = to_node (link_objs s0 l)" "lfrom ?w0 l = from_node (link_objs s0 l)"
    "inc_of ?w0 n = incoming_link_list (node_objs s0 n)"
    "out_of ?w0 n = outgoing_link_list (node_objs s0 n)" for l n
    by (simp_all add: start_work_def)
  from et have t2: "\<forall>mg\<in>set gs. big mg \<longrightarrow>
          (\<forall>l. lto ?w0 l \<in> set (snd mg) \<and> lfrom ?w0 l \<notin> set (snd mg) \<and> l \<in> set (inc_of ?w0 (lto ?w0 l))
               \<longrightarrow> lto ?W l = node_count s0 + new_index gs (fst mg))"
    and t1: "\<forall>l. lto ?W l = lto ?w0 l
          \<or> (\<exists>mg\<in>set gs. big mg \<and> lto ?w0 l \<in> set (snd mg) \<and> lfrom ?w0 l \<notin> set (snd mg)
                \<and> lto ?W l = node_count s0 + new_index gs (fst mg))"
    unfolding end_inv_def by blast+
  from ef have f2: "\<forall>mg\<in>set gs. big mg \<longrightarrow>
          (\<forall>l. lfrom ?w0 l \<in> set (snd mg) \<and> lto ?w0 l \<notin> set (snd mg) \<and> l \<in> set (out_of ?w0 (lfrom ?w0 l))
               \<longrightarrow> lfrom ?W l = node_count s0 + new_index gs (fst mg))"
    and f1: "\<forall>l. lfrom ?W l = lfrom ?w0 l
          \<or> (\<exists>mg\<in>set gs. big mg \<and> lfrom ?w0 l \<in> set (snd mg) \<and> lto ?w0 l \<notin> set (snd mg)
                \<and> lfrom ?W l = node_count s0 + new_index gs (fst mg))"
    unfolding end_inv_def by blast+
  show "mg \<in> set gs \<Longrightarrow> big mg \<Longrightarrow> to_node (link_objs s0 l) \<in> set (snd mg)
           \<Longrightarrow> from_node (link_objs s0 l) \<notin> set (snd mg)
           \<Longrightarrow> l \<in> set (incoming_link_list (node_objs s0 (to_node (link_objs s0 l))))
           \<Longrightarrow> to_node (link_objs (consolidated env cd gs s0) l) = new_ref gs s0 (fst mg)"
    using t2 by (simp add: w0 consolidated_fields new_ref_def)
  show "mg \<in> set gs \<Longrightarrow> big mg \<Longrightarrow> from_node (link_objs s0 l) \<in> set (snd mg)
           \<Longrightarrow> to_node (link_objs s0 l) \<notin> set (snd mg)
           \<Longrightarrow> l \<in> set (outgoing_link_list (node_objs s0 (from_node (link_objs s0 l))))
           \<Longrightarrow> from_node (link_objs (consolidated env cd gs s0) l) = new_ref gs s0 (fst mg)"
    using f2 by (simp add: w0 consolidated_fields new_ref_def)
  show "to_node (link_objs (consolidated env cd gs s0) l) = to_node (link_objs s0 l)
         \<or> (\<exists>mg\<in>set gs. big mg \<and> to_node (link_objs s0 l) \<in> set (snd mg)
               \<and> from_node (link_objs s0 l) \<notin> set (snd mg)
               \<and> to_node (link_objs (consolidated env cd gs s0) l) = new_ref gs s0 (fst mg))"
    using t1 by (simp add: w0 consolidated_fields new_ref_def)
  show "from_node (link_objs (consolidated env cd gs s0) l) = from_node (link_objs s0 l)
         \<or> (\<exists>mg\<in>set gs. big mg \<and> from_node (link_objs s0 l) \<in> set (snd mg)
               \<and> to_node (link_objs s0 l) \<notin> set (snd mg)
               \<and> from_node (link_objs (consolidated env cd gs s0) l) = new_ref gs s0 (fst mg))"
    using f1 by (simp add: w0 consolidated_fields new_ref_def)
qed

lemma consolidate_returns:
  assumes "well_formed network"
  shows "consolidateComplexIntersections env network a t =
     Inr (consolidated env (snd (node_groups (detected network a t)))
            (group_dict (detected network a t)) (detected network a t))"
  using assms
  by (simp add: consolidate_unfold consolidate_groups_eq well_formed_detected group_dict_valid)



section \<open>Conservation of the links\<close>




section \<open>Nothing to consolidate\<close>

lemma process_groups_small:
  "\<forall>mg\<in>set gs. length (snd mg) < 2 \<Longrightarrow> fold (process_group env cd) gs w = w"
  by (induction gs arbitrary: w) (simp_all add: process_group_def)

text \<open>
  Claim C9. Without detection, on a network in which every group identifier is carried
  by fewer than two registered nodes (in particular when no node carries one), the
  function returns the network it was given: dictionaries, objects and counters.
\<close>

theorem no_group_no_change:
  assumes "\<forall>m. length (group_of network m) < 2"
  shows "consolidateComplexIntersections env network False int_buffer = Inr network"
proof -
  have "length (snd mg) < 2" if "mg \<in> set (group_dict network)" for mg
  proof -
    from that have "(fst mg, snd mg) \<in> set (group_dict network)" by simp
    then have "snd mg = group_of network (fst mg)" by (simp only: group_dict_iff)
    with assms show ?thesis by simp
  qed
  then have "processed env cd (group_dict network) network
      = \<lparr>w_net = network, removal_node_set = [], removal_link_set = []\<rparr>" for cd
    by (simp add: processed_def process_groups_small)
  then show ?thesis
    by (simp add: consolidate_unfold detected_def consolidate_groups_def)
qed

theorem no_group_no_change_witness:
  "(\<forall>m. length (group_of scenario_net m) < 2)
   \<and> consolidateComplexIntersections scenario_env scenario_net False (Num 10) = Inr scenario_net"
proof -
  have h: "\<forall>m. length (group_of scenario_net m) < 2"
    by (simp add: group_of_def members_of_def scenario_net_def scenario_node_def)
  from no_group_no_change [OF h] h show ?thesis by simp
qed

section \<open>Coordinates of the new node\<close>

lemma fold_add_member:
  "x_coord_sum (fold (\<lambda>n. add_member env (node_objs net n)) ns s)
     = foldl (float_add env) (x_coord_sum s) (map (\<lambda>r. fst (geometry (node_objs net r))) ns)"
  "y_coord_sum (fold (\<lambda>n. add_member env (node_objs net n)) ns s)
     = foldl (float_add env) (y_coord_sum s) (map (\<lambda>r. snd (geometry (node_objs net r))) ns)"
  "x_coord_xy_sum (fold (\<lambda>n. add_member env (node_objs net n)) ns s)
     = foldl (float_add env) (x_coord_xy_sum s) (map (\<lambda>r. fst (geometry_xy (node_objs net r))) ns)"
  "y_coord_xy_sum (fold (\<lambda>n. add_member env (node_objs net n)) ns s)
     = foldl (float_add env) (y_coord_xy_sum s) (map (\<lambda>r. snd (geometry_xy (node_objs net r))) ns)"
  by (induction ns arbitrary: s) (simp_all add: add_member_def)

lemma group_sums_foldl:
  "x_coord_sum (group_sums env net g)
     = foldl (float_add env) (float_zero env) (map (\<lambda>r. fst (geometry (node_objs net r))) g)"
  "y_coord_sum (group_sums env net g)
     = foldl (float_add env) (float_zero env) (map (\<lambda>r. snd (geometry (node_objs net r))) g)"
  "x_coord_xy_sum (group_sums env net g)
     = foldl (float_add env) (float_zero env) (map (\<lambda>r. fst (geometry_xy (node_objs net r))) g)"
  "y_coord_xy_sum (group_sums env net g)
     = foldl (float_add env) (float_zero env) (map (\<lambda>r. snd (geometry_xy (node_objs net r))) g)"
  by (simp_all add: group_sums_def fold_add_member sums0_def)

text \<open>
  Claim C7. On a well-formed network, the new node of a group of at least two members has
  as geographic coordinate the pair of: the members' x, respectively y, coordinates
  added up from 0.0 in the order of the group, divided by the size of the group, and
  rounded to the geographic precision; and as local coordinate the same with the local
  coordinates and the local precision. The rounding is the outermost operation. Float
  addition, division and \<^verbatim>\<open>round\<close> are the parameters in \<open>env\<close>.
\<close>

theorem replacement_coordinates:
  fixes network :: "'f network" and auto_identify :: bool and int_buffer :: py_float
  defines "s0 \<equiv> detected network auto_identify int_buffer"
  assumes wf: "well_formed network" and len: "2 \<le> length (group_of s0 m)"
  shows "\<exists>net'. consolidateComplexIntersections env network auto_identify int_buffer = Inr net'
     \<and> main_node_id (node_objs net' (new_ref (group_dict s0) s0 m)) = Some m
     \<and> geometry (node_objs net' (new_ref (group_dict s0) s0 m)) =
         (py_round env
            (float_div env
               (foldl (float_add env) (float_zero env)
                  (map (\<lambda>r. fst (geometry (node_objs s0 r))) (group_of s0 m)))
               (length (group_of s0 m)))
            (lonlat_coord_precision env),
          py_round env
            (float_div env
               (foldl (float_add env) (float_zero env)
                  (map (\<lambda>r. snd (geometry (node_objs s0 r))) (group_of s0 m)))
               (length (group_of s0 m)))
            (lonlat_coord_precision env))
     \<and> geometry_xy (node_objs net' (new_ref (group_dict s0) s0 m)) =
         (py_round env
            (float_div env
               (foldl (float_add env) (float_zero env)
                  (map (\<lambda>r. fst (geometry_xy (node_objs s0 r))) (group_of s0 m)))
               (length (group_of s0 m)))
            (local_coord_precision env),
          py_round env
            (float_div env
               (foldl (float_add env) (float_zero env)
                  (map (\<lambda>r. snd (geometry_xy (node_objs s0 r))) (group_of s0 m)))
               (length (group_of s0 m)))
            (local_coord_precision env))"
proof -
  let ?gd = "group_dict s0"
  let ?net = "consolidated env (snd (node_groups s0)) ?gd s0"
  let ?mg = "(m, group_of s0 m)"
  from wf have wf0: "well_formed s0" unfolding s0_def by (rule well_formed_detected)
  have vg: "valid_groups s0 ?gd" by (rule group_dict_valid)
  from group_dict_big [OF len] have mg: "?mg \<in> set ?gd" "big ?mg" by simp_all
  have ret: "consolidateComplexIntersections env network auto_identify int_buffer = Inr ?net"
    unfolding s0_def using wf by (rule consolidate_returns)
  from consolidated_new_node(1,3,4) [OF wf0 vg mg, of env "snd (node_groups s0)"]
  have "main_node_id (node_objs ?net (new_ref ?gd s0 m)) = Some m"
    "geometry (node_objs ?net (new_ref ?gd s0 m)) = group_geometry env s0 (group_of s0 m)"
    "geometry_xy (node_objs ?net (new_ref ?gd s0 m)) = group_geometry_xy env s0 (group_of s0 m)"
    by simp_all
  with ret show ?thesis
    by (simp add: group_geometry_def group_geometry_xy_def group_sums_foldl)
qed

theorem replacement_coordinates_witness:
  "well_formed scenario_net
   \<and> 2 \<le> length (group_of (detected scenario_net True (Num 10)) 0)
   \<and> (\<exists>net'. consolidateComplexIntersections scenario_env scenario_net True (Num 10) = Inr net'
        \<and> geometry (node_objs net' 4) = (1, 3333333 / 10000000)
        \<and> geometry_xy (node_objs net' 4) = (1, 33 / 100))"
proof -
  have wf: "well_formed scenario_net" by code_simp
  have len: "2 \<le> length (group_of (detected scenario_net True (Num 10)) 0)" by code_simp
  have nr: "new_ref (group_dict (detected scenario_net True (Num 10))) (detected scenario_net True (Num 10)) 0 = 4"
    by code_simp
  have g: "group_of (detected scenario_net True (Num 10)) 0 = [0, 1, 2]" by code_simp
  have c: "map (\<lambda>r. geometry (node_objs (detected scenario_net True (Num 10)) r)) [0, 1, 2]
      = [(0, 0), (2, 0), (1, 1)]"
    "map (\<lambda>r. geometry_xy (node_objs (detected scenario_net True (Num 10)) r)) [0, 1, 2]
      = [(0, 0), (2, 0), (1, 1)]"
    by code_simp+
  have r: "py_round scenario_env (float_div scenario_env 3 3) 7 = 1"
    "py_round scenario_env (float_div scenario_env 1 3) 7 = 3333333 / 10000000"
    "py_round scenario_env (float_div scenario_env 3 3) 2 = 1"
    "py_round scenario_env (float_div scenario_env 1 3) 2 = 33 / 100"
    by code_simp+
  from replacement_coordinates [OF wf len, of scenario_env] c
  have "\<exists>net'. consolidateComplexIntersections scenario_env scenario_net True (Num 10) = Inr net'
        \<and> geometry (node_objs net' 4) = (1, 3333333 / 10000000)
        \<and> geometry_xy (node_objs net' 4) = (1, 33 / 100)"
    by (simp add: nr g scenario_env_def) (auto simp: r [unfolded scenario_env_def, simplified])
  with wf len show ?thesis by blast
qed

section \<open>Fresh identifiers\<close>

lemma merged_node_key:
  assumes dk: "dicts_keyed s0" and vg: "valid_groups s0 gs" and r: "r \<in> merged_nodes gs"
  shows "(node_id (node_objs s0 r), r) \<in> set (node_dict s0)"
  using registered_entry [OF dk merged_nodes_registered [OF vg r]] .

lemma new_entry_survives:
  fixes s0 :: "'f network"
  assumes wf: "well_formed s0" and vg: "valid_groups s0 gs" and fr: "fresh_ids s0 gs"
    and mg: "mg \<in> set gs" "big mg"
  shows "(new_id gs s0 (fst mg), new_ref gs s0 (fst mg)) \<in> set (node_dict (consolidated env cd gs s0))"
proof -
  from wf have dk: "dicts_keyed s0" by (simp add: well_formed_def)
  from new_index_less [OF mg] have i: "new_index gs (fst mg) < nbig gs" .
  then have m: "(new_id gs s0 (fst mg), new_ref gs s0 (fst mg))
      \<in> set (register_new (max_node_id s0) (node_count s0) (nbig gs) (node_dict s0))"
    unfolding new_id_def new_ref_def by (rule register_new_member)
  from fr i have nk: "new_id gs s0 (fst mg) \<notin> fst ` set (node_dict s0)"
    by (simp add: fresh_ids_def new_id_def)
  have "new_id gs s0 (fst mg) \<notin> (\<lambda>r. node_id (node_objs s0 r)) ` merged_nodes gs"
  proof
    assume "new_id gs s0 (fst mg) \<in> (\<lambda>r. node_id (node_objs s0 r)) ` merged_nodes gs"
    then obtain r where r: "r \<in> merged_nodes gs" "new_id gs s0 (fst mg) = node_id (node_objs s0 r)"
      by auto
    from merged_node_key [OF dk vg r(1)] r(2)
    have "(new_id gs s0 (fst mg), r) \<in> set (node_dict s0)" by simp
    then have "fst (new_id gs s0 (fst mg), r) \<in> fst ` set (node_dict s0)" by (rule imageI)
    with nk show False by simp
  qed
  with m show ?thesis by (simp add: consolidated_fields)
qed

lemma old_entry_survives:
  fixes s0 :: "'f network"
  assumes wf: "well_formed s0" and vg: "valid_groups s0 gs" and fr: "fresh_ids s0 gs"
    and r: "r \<in> registered s0" "r \<notin> merged_nodes gs"
  shows "r \<in> registered (consolidated env cd gs s0)"
proof -
  from wf have dk: "dicts_keyed s0" by (simp add: well_formed_def)
  let ?k = "node_id (node_objs s0 r)"
  from registered_entry [OF dk r(1)] have e: "(?k, r) \<in> set (node_dict s0)" .
  then have "fst (?k, r) \<in> fst ` set (node_dict s0)" by (rule imageI)
  then have kin: "?k \<in> fst ` set (node_dict s0)" by simp
  have "\<forall>i<nbig gs. ?k \<noteq> max_node_id s0 + int i"
  proof (intro allI impI notI)
    fix i assume "i < nbig gs" "?k = max_node_id s0 + int i"
    with fr kin show False by (simp add: fresh_ids_def)
  qed
  with e have m: "(?k, r) \<in> set (register_new (max_node_id s0) (node_count s0) (nbig gs) (node_dict s0))"
    by (rule register_new_keeps)
  have "?k \<notin> (\<lambda>r. node_id (node_objs s0 r)) ` merged_nodes gs"
  proof
    assume "?k \<in> (\<lambda>r. node_id (node_objs s0 r)) ` merged_nodes gs"
    then obtain r' where r': "r' \<in> merged_nodes gs" "?k = node_id (node_objs s0 r')" by auto
    from merged_node_key [OF dk vg r'(1)] r'(2) have "(?k, r') \<in> set (node_dict s0)" by simp
    with dk e have "r = r'" unfolding dicts_keyed_def by (blast intro: key_unique)
    with r'(1) r(2) show False by simp
  qed
  with m have "(?k, r) \<in> set (node_dict (consolidated env cd gs s0))"
    by (simp add: consolidated_fields)
  then have "snd (?k, r) \<in> snd ` set (node_dict (consolidated env cd gs s0))" by (rule imageI)
  then show ?thesis by (simp add: registered_def)
qed

lemma stale_entry_removed:
  fixes s0 :: "'f network"
  assumes wf: "well_formed s0" and vg: "valid_groups s0 gs" and mg: "mg \<in> set gs" "big mg"
    and st: "new_id gs s0 (fst mg) \<in> (\<lambda>r. node_id (node_objs s0 r)) ` merged_nodes gs"
  shows "new_ref gs s0 (fst mg) \<notin> registered (consolidated env cd gs s0)"
proof
  assume "new_ref gs s0 (fst mg) \<in> registered (consolidated env cd gs s0)"
  then obtain k where k: "(k, new_ref gs s0 (fst mg)) \<in> set (node_dict (consolidated env cd gs s0))"
    by (auto simp: registered_def)
  then have nk: "k \<notin> (\<lambda>r. node_id (node_objs s0 r)) ` merged_nodes gs"
    and "(k, new_ref gs s0 (fst mg))
      \<in> set (register_new (max_node_id s0) (node_count s0) (nbig gs) (node_dict s0))"
    by (simp_all add: consolidated_fields)
  from register_new_subset [OF this(2)]
  show False
  proof
    assume "(k, new_ref gs s0 (fst mg)) \<in> set (node_dict s0)"
    then have "snd (k, new_ref gs s0 (fst mg)) \<in> snd ` set (node_dict s0)" by (rule imageI)
    then have "new_ref gs s0 (fst mg) \<in> registered s0" by (simp add: registered_def)
    with consolidated_new_node(5) [OF wf vg mg] show False by simp
  next
    assume "\<exists>i<nbig gs. k = max_node_id s0 + int i \<and> new_ref gs s0 (fst mg) = node_count s0 + i"
    then have "k = new_id gs s0 (fst mg)" by (auto simp: new_ref_def new_id_def)
    with st nk show False by simp
  qed
qed

lemma consolidated_to_registered:
  fixes s0 :: "'f network"
  assumes wf: "well_formed s0" and vg: "valid_groups s0 gs" and fr: "fresh_ids s0 gs"
    and kl: "kl \<in> set (link_dict s0)" and nm: "snd kl \<notin> merged_links s0 gs"
  shows "to_node (link_objs (consolidated env cd gs s0) (snd kl)) \<in> registered (consolidated env cd gs s0)"
proof -
  let ?net = "consolidated env cd gs s0" and ?l = "snd kl"
  let ?t = "to_node (link_objs s0 ?l)" and ?f = "from_node (link_objs s0 ?l)"
  from wf have ac: "adjacency_complete s0" and er: "endpoints_registered s0"
    by (simp_all add: well_formed_def)
  from ac kl have adj: "?l \<in> set (incoming_link_list (node_objs s0 ?t))"
    by (simp add: adjacency_complete_def)
  have new: "new_ref gs s0 (fst mg) \<in> registered ?net" if "mg \<in> set gs" "big mg" for mg
  proof -
    from new_entry_survives [OF wf vg fr that, of env cd]
    have "snd (new_id gs s0 (fst mg), new_ref gs s0 (fst mg)) \<in> snd ` set (node_dict ?net)"
      by (rule imageI)
    then show ?thesis by (simp add: registered_def)
  qed
  show ?thesis
  proof (cases "?t \<in> merged_nodes gs")
    case True
    then obtain mg where mg: "mg \<in> set gs" "big mg" "?t \<in> set (snd mg)"
      by (auto simp: merged_nodes_def)
    have "?f \<notin> set (snd mg)"
    proof
      assume "?f \<in> set (snd mg)"
      with mg(3) adj have "?l \<in> intra_links (start_work s0) (snd mg)"
        by (simp add: intra_links_def start_work_def)
      with mg(1,2) have "?l \<in> merged_links s0 gs" unfolding merged_links_def by blast
      with nm show False by simp
    qed
    from consolidated_endpoints(1) [OF wf vg mg(1,2,3) this adj, of env cd] new [OF mg(1,2)]
    show ?thesis by simp
  next
    case False
    from consolidated_endpoints(3) [OF wf vg, of env cd ?l] show ?thesis
    proof
      assume "to_node (link_objs ?net ?l) = ?t"
      moreover from er kl have "?t \<in> registered s0" by (simp add: endpoints_registered_def)
      ultimately show ?thesis using old_entry_survives [OF wf vg fr _ False, of env cd] by simp
    next
      assume "\<exists>mg\<in>set gs. big mg \<and> ?t \<in> set (snd mg) \<and> ?f \<notin> set (snd mg)
               \<and> to_node (link_objs ?net ?l) = new_ref gs s0 (fst mg)"
      with new show ?thesis by auto
    qed
  qed
qed

lemma consolidated_from_registered:
  fixes s0 :: "'f network"
  assumes wf: "well_formed s0" and vg: "valid_groups s0 gs" and fr: "fresh_ids s0 gs"
    and kl: "kl \<in> set (link_dict s0)" and nm: "snd kl \<notin> merged_links s0 gs"
  shows "from_node (link_objs (consolidated env cd gs s0) (snd kl)) \<in> registered (consolidated env cd gs s0)"
proof -
  let ?net = "consolidated env cd gs s0" and ?l = "snd kl"
  let ?t = "to_node (link_objs s0 ?l)" and ?f = "from_node (link_objs s0 ?l)"
  from wf have ac: "adjacency_complete s0" and er: "endpoints_registered s0"
    by (simp_all add: well_formed_def)
  from ac kl have adj: "?l \<in> set (outgoing_link_list (node_objs s0 ?f))"
    by (simp add: adjacency_complete_def)
  have new: "new_ref gs s0 (fst mg) \<in> registered ?net" if "mg \<in> set gs" "big mg" for mg
  proof -
    from new_entry_survives [OF wf vg fr that, of env cd]
    have "snd (new_id gs s0 (fst mg), new_ref gs s0 (fst mg)) \<in> snd ` set (node_dict ?net)"
      by (rule imageI)
    then show ?thesis by (simp add: registered_def)
  qed
  show ?thesis
  proof (cases "?f \<in> merged_nodes gs")
    case True
    then obtain mg where mg: "mg \<in> set gs" "big mg" "?f \<in> set (snd mg)"
      by (auto simp: merged_nodes_def)
    have "?t \<notin> set (snd mg)"
    proof
      assume "?t \<in> set (snd mg)"
      with mg(3) adj have "?l \<in> intra_links (start_work s0) (snd mg)"
        by (simp add: intra_links_def start_work_def)
      with mg(1,2) have "?l \<in> merged_links s0 gs" unfolding merged_links_def by blast
      with nm show False by simp
    qed
    from consolidated_endpoints(2) [OF wf vg mg(1,2,3) this adj, of env cd] new [OF mg(1,2)]
    show ?thesis by simp
  next
    case False
    from consolidated_endpoints(4) [OF wf vg, of env cd ?l] show ?thesis
    proof
      assume "from_node (link_objs ?net ?l) = ?f"
      moreover from er kl have "?f \<in> registered s0" by (simp add: endpoints_registered_def)
      ultimately show ?thesis using old_entry_survives [OF wf vg fr _ False, of env cd] by simp
    next
      assume "\<exists>mg\<in>set gs. big mg \<and> ?f \<in> set (snd mg) \<and> ?t \<notin> set (snd mg)
               \<and> from_node (link_objs ?net ?l) = new_ref gs s0 (fst mg)"
      with new show ?thesis by auto
    qed
  qed
qed

text \<open>
  Claim C4, which fails as it is stated: on the two-group network with the counter
  \<open>max_node_id\<close> at 6, an identifier in use, the function returns and leaves the link
  101 in the link dictionary with a \<open>to_node\<close> that is not in the node dictionary. The
  new node of the first group is registered under the key 6 of a merged node, and the
  deletion of that merged node removes it.
\<close>

theorem dangling_link_counterexample:
  "well_formed (pair_net 6)
   \<and> \<not> isl (consolidateComplexIntersections scenario_env (pair_net 6) True (Num 10))
   \<and> (101, 1) \<in> set (link_dict (projr (consolidateComplexIntersections scenario_env (pair_net 6) True (Num 10))))
   \<and> to_node (link_objs (projr (consolidateComplexIntersections scenario_env (pair_net 6) True (Num 10))) 1)
       \<notin> registered (projr (consolidateComplexIntersections scenario_env (pair_net 6) True (Num 10)))"
  by code_simp

text \<open>
  Claim C4, amended. On a well-formed network whose counter \<open>max_node_id\<close> and its
  successors, one for each group to consolidate, are not in use as node identifiers,
  the function returns, and every link of the link dictionary it returns has its
  \<open>from_node\<close> and its \<open>to_node\<close> in the node dictionary.
\<close>

theorem no_dangling_links:
  fixes network :: "'f network" and auto_identify :: bool and int_buffer :: py_float
  defines "s0 \<equiv> detected network auto_identify int_buffer"
  assumes wf: "well_formed network" and fr: "fresh_ids s0 (group_dict s0)"
  shows "\<exists>net'. consolidateComplexIntersections env network auto_identify int_buffer = Inr net'
     \<and> (\<forall>kl\<in>set (link_dict net').
          from_node (link_objs net' (snd kl)) \<in> registered net'
          \<and> to_node (link_objs net' (snd kl)) \<in> registered net')"
proof -
  let ?gd = "group_dict s0"
  let ?net = "consolidated env (snd (node_groups s0)) ?gd s0"
  from wf have wf0: "well_formed s0" unfolding s0_def by (rule well_formed_detected)
  have vg: "valid_groups s0 ?gd" by (rule group_dict_valid)
  have ret: "consolidateComplexIntersections env network auto_identify int_buffer = Inr ?net"
    unfolding s0_def using wf by (rule consolidate_returns)
  have "from_node (link_objs ?net (snd kl)) \<in> registered ?net
      \<and> to_node (link_objs ?net (snd kl)) \<in> registered ?net" if "kl \<in> set (link_dict ?net)" for kl
  proof -
    from that have kl: "kl \<in> set (link_dict s0)" and nm: "snd kl \<notin> merged_links s0 ?gd"
      by (simp_all add: consolidated_fields)
    from consolidated_from_registered [OF wf0 vg fr kl nm] consolidated_to_registered [OF wf0 vg fr kl nm]
    show ?thesis by simp
  qed
  with ret show ?thesis by blast
qed

theorem no_dangling_links_witness:
  "well_formed (pair_net 10)
   \<and> fresh_ids (detected (pair_net 10) True (Num 10)) (group_dict (detected (pair_net 10) True (Num 10)))
   \<and> (\<exists>net'. consolidateComplexIntersections scenario_env (pair_net 10) True (Num 10) = Inr net'
        \<and> link_dict net' = [(101, 1)]
        \<and> node_dict net' = [(10, 4), (11, 5)]
        \<and> from_node (link_objs net' 1) \<in> registered net'
        \<and> to_node (link_objs net' 1) \<in> registered net')"
proof -
  have wf: "well_formed (pair_net 10)" by code_simp
  have fr: "fresh_ids (detected (pair_net 10) True (Num 10)) (group_dict (detected (pair_net 10) True (Num 10)))"
    by code_simp
  have ld: "link_dict (projr (consolidateComplexIntersections scenario_env (pair_net 10) True (Num 10)))
      = [(101, 1)]"
    "node_dict (projr (consolidateComplexIntersections scenario_env (pair_net 10) True (Num 10)))
      = [(10, 4), (11, 5)]"
    by code_simp+
  from no_dangling_links [OF wf fr, of scenario_env]
  obtain net' where n: "consolidateComplexIntersections scenario_env (pair_net 10) True (Num 10) = Inr net'"
    "\<forall>kl\<in>set (link_dict net').
          from_node (link_objs net' (snd kl)) \<in> registered net'
          \<and> to_node (link_objs net' (snd kl)) \<in> registered net'"
    by blast
  from ld n(1) have l: "link_dict net' = [(101, 1)]" "node_dict net' = [(10, 4), (11, 5)]"
    by simp_all
  with n(2) have "from_node (link_objs net' 1) \<in> registered net'"
    "to_node (link_objs net' 1) \<in> registered net'" by simp_all
  with wf fr n(1) l show ?thesis by blast
qed

section \<open>The new node in the node dictionary\<close>

text \<open>
  Claim C10, which fails as it is stated: on the two-group network with the counter
  \<open>max_node_id\<close> at 5, the counter differs from the identifiers 6, 7, 8 and 9 of the
  nodes, both groups have two members, the function returns, and the new node of the
  second group is not in the node dictionary it returns. That node is minted with the
  identifier 6, after the counter has been incremented for the first group.
\<close>

theorem replacement_lost_counterexample:
  "well_formed (pair_net 5)
   \<and> max_node_id (pair_net 5) \<notin> fst ` set (node_dict (pair_net 5))
   \<and> 2 \<le> length (group_of (detected (pair_net 5) True (Num 10)) 1)
   \<and> \<not> isl (consolidateComplexIntersections scenario_env (pair_net 5) True (Num 10))
   \<and> main_node_id (node_objs (projr (consolidateComplexIntersections scenario_env (pair_net 5) True (Num 10)))
        (new_ref (group_dict (detected (pair_net 5) True (Num 10))) (detected (pair_net 5) True (Num 10)) 1)) = Some 1
   \<and> new_ref (group_dict (detected (pair_net 5) True (Num 10))) (detected (pair_net 5) True (Num 10)) 1
       \<notin> registered (projr (consolidateComplexIntersections scenario_env (pair_net 5) True (Num 10)))"
  by code_simp

text \<open>
  Claim C10, amended. On a well-formed network: if the counter \<open>max_node_id\<close> and its
  successors, one for each group to consolidate, are not in use as node identifiers,
  then the new node of every group of at least two members is in the node dictionary
  that the function returns, under the identifier it was minted with; and if the
  identifier that a new node is minted with is the \<open>node_id\<close> of a merged node, then
  that new node is not in the node dictionary that the function returns.
\<close>

theorem replacement_registered:
  fixes network :: "'f network" and auto_identify :: bool and int_buffer :: py_float
    and network2 :: "'f network" and auto_identify2 :: bool and int_buffer2 :: py_float
  defines "s0 \<equiv> detected network auto_identify int_buffer"
  defines "t0 \<equiv> detected network2 auto_identify2 int_buffer2"
  shows "(well_formed network \<and> fresh_ids s0 (group_dict s0) \<and> 2 \<le> length (group_of s0 m)
          \<longrightarrow> (\<exists>net'. consolidateComplexIntersections env network auto_identify int_buffer = Inr net'
                 \<and> (new_id (group_dict s0) s0 m, new_ref (group_dict s0) s0 m) \<in> set (node_dict net')
                 \<and> node_id (node_objs net' (new_ref (group_dict s0) s0 m)) = new_id (group_dict s0) s0 m
                 \<and> main_node_id (node_objs net' (new_ref (group_dict s0) s0 m)) = Some m))
       \<and> (well_formed network2 \<and> 2 \<le> length (group_of t0 m2)
            \<and> new_id (group_dict t0) t0 m2
                \<in> (\<lambda>r. node_id (node_objs t0 r)) ` merged_nodes (group_dict t0)
          \<longrightarrow> (\<exists>net'. consolidateComplexIntersections env network2 auto_identify2 int_buffer2 = Inr net'
                 \<and> main_node_id (node_objs net' (new_ref (group_dict t0) t0 m2)) = Some m2
                 \<and> new_ref (group_dict t0) t0 m2 \<notin> registered net'))"
proof (intro conjI impI)
  assume a: "well_formed network \<and> fresh_ids s0 (group_dict s0) \<and> 2 \<le> length (group_of s0 m)"
  let ?gd = "group_dict s0"
  let ?net = "consolidated env (snd (node_groups s0)) ?gd s0"
  let ?mg = "(m, group_of s0 m)"
  from a have wf0: "well_formed s0" unfolding s0_def by (simp add: well_formed_detected)
  have vg: "valid_groups s0 ?gd" by (rule group_dict_valid)
  from a group_dict_big [of s0 m] have mg: "?mg \<in> set ?gd" "big ?mg" by simp_all
  have ret: "consolidateComplexIntersections env network auto_identify int_buffer = Inr ?net"
    unfolding s0_def using a by (simp add: consolidate_returns)
  from a have fr: "fresh_ids s0 ?gd" by simp
  from new_entry_survives [OF wf0 vg fr mg, of env "snd (node_groups s0)"]
    consolidated_new_node(1,2) [OF wf0 vg mg, of env "snd (node_groups s0)"]
  have "(new_id ?gd s0 m, new_ref ?gd s0 m) \<in> set (node_dict ?net)"
    "node_id (node_objs ?net (new_ref ?gd s0 m)) = new_id ?gd s0 m"
    "main_node_id (node_objs ?net (new_ref ?gd s0 m)) = Some m"
    by simp_all
  with ret show "\<exists>net'. consolidateComplexIntersections env network auto_identify int_buffer = Inr net'
                 \<and> (new_id ?gd s0 m, new_ref ?gd s0 m) \<in> set (node_dict net')
                 \<and> node_id (node_objs net' (new_ref ?gd s0 m)) = new_id ?gd s0 m
                 \<and> main_node_id (node_objs net' (new_ref ?gd s0 m)) = Some m"
    by blast
next
  assume a: "well_formed network2 \<and> 2 \<le> length (group_of t0 m2)
            \<and> new_id (group_dict t0) t0 m2
                \<in> (\<lambda>r. node_id (node_objs t0 r)) ` merged_nodes (group_dict t0)"
  let ?gd = "group_dict t0"
  let ?net = "consolidated env (snd (node_groups t0)) ?gd t0"
  let ?mg = "(m2, group_of t0 m2)"
  from a have wf0: "well_formed t0" unfolding t0_def by (simp add: well_formed_detected)
  have vg: "valid_groups t0 ?gd" by (rule group_dict_valid)
  from a group_dict_big [of t0 m2] have mg: "?mg \<in> set ?gd" "big ?mg" by simp_all
  have ret: "consolidateComplexIntersections env network2 auto_identify2 int_buffer2 = Inr ?net"
    unfolding t0_def using a by (simp add: consolidate_returns)
  from a have st: "new_id ?gd t0 (fst ?mg) \<in> (\<lambda>r. node_id (node_objs t0 r)) ` merged_nodes ?gd"
    by simp
  from stale_entry_removed [OF wf0 vg mg st, of env "snd (node_groups t0)"]
    consolidated_new_node(1) [OF wf0 vg mg, of env "snd (node_groups t0)"]
  have "main_node_id (node_objs ?net (new_ref ?gd t0 m2)) = Some m2"
    "new_ref ?gd t0 m2 \<notin> registered ?net" by simp_all
  with ret show "\<exists>net'. consolidateComplexIntersections env network2 auto_identify2 int_buffer2 = Inr net'
                 \<and> main_node_id (node_objs net' (new_ref ?gd t0 m2)) = Some m2
                 \<and> new_ref ?gd t0 m2 \<notin> registered net'"
    by blast
qed

theorem replacement_registered_witness:
  "well_formed (pair_net 10)
   \<and> fresh_ids (detected (pair_net 10) True (Num 10)) (group_dict (detected (pair_net 10) True (Num 10)))
   \<and> 2 \<le> length (group_of (detected (pair_net 10) True (Num 10)) 1)
   \<and> (\<exists>net'. consolidateComplexIntersections scenario_env (pair_net 10) True (Num 10) = Inr net'
         \<and> (11, 5) \<in> set (node_dict net') \<and> main_node_id (node_objs net' 5) = Some 1)
   \<and> well_formed (pair_net 5)
   \<and> 2 \<le> length (group_of (detected (pair_net 5) True (Num 10)) 1)
   \<and> new_id (group_dict (detected (pair_net 5) True (Num 10))) (detected (pair_net 5) True (Num 10)) 1 = 6
   \<and> node_id (node_objs (detected (pair_net 5) True (Num 10)) 0) = 6
   \<and> 0 \<in> merged_nodes (group_dict (detected (pair_net 5) True (Num 10)))
   \<and> (\<exists>net'. consolidateComplexIntersections scenario_env (pair_net 5) True (Num 10) = Inr net'
         \<and> main_node_id (node_objs net' 5) = Some 1 \<and> 5 \<notin> registered net')"
proof -
  have a: "well_formed (pair_net 10)"
    "fresh_ids (detected (pair_net 10) True (Num 10)) (group_dict (detected (pair_net 10) True (Num 10)))"
    "2 \<le> length (group_of (detected (pair_net 10) True (Num 10)) 1)"
    by code_simp+
  have b: "well_formed (pair_net 5)"
    "2 \<le> length (group_of (detected (pair_net 5) True (Num 10)) 1)"
    "new_id (group_dict (detected (pair_net 5) True (Num 10))) (detected (pair_net 5) True (Num 10)) 1
       \<in> (\<lambda>r. node_id (node_objs (detected (pair_net 5) True (Num 10)) r))
           ` merged_nodes (group_dict (detected (pair_net 5) True (Num 10)))"
    by code_simp+
  have c: "new_id (group_dict (detected (pair_net 5) True (Num 10))) (detected (pair_net 5) True (Num 10)) 1 = 6"
    "node_id (node_objs (detected (pair_net 5) True (Num 10)) 0) = 6"
    "0 \<in> merged_nodes (group_dict (detected (pair_net 5) True (Num 10)))"
    by code_simp+
  have n: "new_ref (group_dict (detected (pair_net 10) True (Num 10))) (detected (pair_net 10) True (Num 10)) 1 = 5"
    "new_id (group_dict (detected (pair_net 10) True (Num 10))) (detected (pair_net 10) True (Num 10)) 1 = 11"
    "new_ref (group_dict (detected (pair_net 5) True (Num 10))) (detected (pair_net 5) True (Num 10)) 1 = 5"
    by code_simp+
  from replacement_registered [of "pair_net 10" True "Num 10" 1 scenario_env "pair_net 5" True "Num 10" 1] a b
  have "(\<exists>net'. consolidateComplexIntersections scenario_env (pair_net 10) True (Num 10) = Inr net'
         \<and> (11, 5) \<in> set (node_dict net') \<and> main_node_id (node_objs net' 5) = Some 1)"
    "(\<exists>net'. consolidateComplexIntersections scenario_env (pair_net 5) True (Num 10) = Inr net'
         \<and> main_node_id (node_objs net' 5) = Some 1 \<and> 5 \<notin> registered net')"
    unfolding n by blast+
  with a b(1,2) c show ?thesis by blast
qed

section \<open>A link between two groups, and the order of the groups\<close>

lemma valid_groups_perm:
  assumes "valid_groups net gd" "mset gs = mset gd"
  shows "valid_groups net gs"
proof -
  from assms(2) have s: "set gs = set gd" by (rule mset_eq_setD)
  from assms(2) have "mset (map fst gs) = mset (map fst gd)" by simp
  then have "distinct (map fst gs) = distinct (map fst gd)" by (rule mset_eq_imp_distinct_iff)
  with assms(1) s show ?thesis by (simp add: valid_groups_def)
qed

text \<open>
  Claim C6. On a well-formed network, take a registered link whose \<open>from_node\<close> is in the
  group \<open>mA\<close> and whose \<open>to_node\<close> is in another group \<open>mB\<close>, both of at least two
  members. Whatever the order \<open>gs\<close> in which the groups of the group dictionary are
  processed, consolidation returns, the link is in the link dictionary it returns,
  its \<open>from_node\<close> is the new node made for \<open>mA\<close> and its \<open>to_node\<close> the new node made for
  \<open>mB\<close>; these are two different new objects that carry the identifiers of their groups.
  The function itself processes the groups in the order of the group dictionary.
\<close>

theorem cross_group_link:
  fixes network :: "'f network" and auto_identify :: bool and int_buffer :: py_float
  defines "s0 \<equiv> detected network auto_identify int_buffer"
  assumes wf: "well_formed network" and perm: "mset gs = mset (group_dict s0)"
    and kl: "kl \<in> set (link_dict s0)"
    and lenA: "2 \<le> length (group_of s0 mA)" and lenB: "2 \<le> length (group_of s0 mB)"
    and ne: "mA \<noteq> mB"
    and fA: "in_group s0 mA (from_node (link_objs s0 (snd kl)))"
    and tB: "in_group s0 mB (to_node (link_objs s0 (snd kl)))"
  shows "consolidateComplexIntersections env network auto_identify int_buffer
           = consolidate_groups env (snd (node_groups s0)) (group_dict s0) s0
     \<and> (\<exists>net'. consolidate_groups env (snd (node_groups s0)) gs s0 = Inr net'
          \<and> kl \<in> set (link_dict net')
          \<and> from_node (link_objs net' (snd kl)) = new_ref gs s0 mA
          \<and> to_node (link_objs net' (snd kl)) = new_ref gs s0 mB
          \<and> main_node_id (node_objs net' (new_ref gs s0 mA)) = Some mA
          \<and> main_node_id (node_objs net' (new_ref gs s0 mB)) = Some mB
          \<and> new_ref gs s0 mA \<noteq> new_ref gs s0 mB
          \<and> new_ref gs s0 mA \<notin> registered s0 \<and> new_ref gs s0 mB \<notin> registered s0)"
proof -
  let ?cd = "snd (node_groups s0)"
  let ?net = "consolidated env ?cd gs s0"
  let ?l = "snd kl"
  let ?f = "from_node (link_objs s0 ?l)" and ?t = "to_node (link_objs s0 ?l)"
  let ?A = "(mA, group_of s0 mA)" and ?B = "(mB, group_of s0 mB)"
  from wf have wf0: "well_formed s0" unfolding s0_def by (rule well_formed_detected)
  then have ac: "adjacency_complete s0" by (simp add: well_formed_def)
  from group_dict_valid perm have vg: "valid_groups s0 gs" by (rule valid_groups_perm)
  from perm have sg: "set gs = set (group_dict s0)" by (rule mset_eq_setD)
  from group_dict_big [OF lenA] sg have A: "?A \<in> set gs" "big ?A" by simp_all
  from group_dict_big [OF lenB] sg have B: "?B \<in> set gs" "big ?B" by simp_all
  have ret: "consolidate_groups env ?cd gs s0 = Inr ?net"
    using wf0 vg by (rule consolidate_groups_eq)
  have fnB: "\<not> in_group s0 mB ?f"
  proof
    assume "in_group s0 mB ?f"
    with fA in_group_main [of s0 mA ?f] in_group_main [of s0 mB ?f] ne show False by simp
  qed
  have tnA: "\<not> in_group s0 mA ?t"
  proof
    assume "in_group s0 mA ?t"
    with tB in_group_main [of s0 mA ?t] in_group_main [of s0 mB ?t] ne show False by simp
  qed
  from ac kl have adjo: "?l \<in> set (outgoing_link_list (node_objs s0 ?f))"
    and adji: "?l \<in> set (incoming_link_list (node_objs s0 ?t))"
    by (simp_all add: adjacency_complete_def)
  have nm: "?l \<notin> merged_links s0 gs"
  proof
    assume "?l \<in> merged_links s0 gs"
    then obtain mg where mg: "mg \<in> set gs" "?f \<in> set (snd mg)" "?t \<in> set (snd mg)"
      by (auto simp: merged_links_def intra_links_def start_work_def)
    from mg(1) sg have "(fst mg, snd mg) \<in> set (group_dict s0)" by simp
    then have "snd mg = group_of s0 (fst mg)" by (simp only: group_dict_iff)
    with mg(2,3) have "in_group s0 (fst mg) ?f" "in_group s0 (fst mg) ?t"
      by (simp_all add: in_group_def)
    with in_group_main [of s0 "fst mg" ?f] in_group_main [of s0 "fst mg" ?t]
      in_group_main [OF fA] in_group_main [OF tB] ne
    show False by simp
  qed
  with kl have in': "kl \<in> set (link_dict ?net)" by (simp add: consolidated_fields)
  from fA tnA have "?f \<in> set (snd ?A)" "?t \<notin> set (snd ?A)" by (simp_all add: in_group_def)
  from consolidated_endpoints(2) [OF wf0 vg A this adjo, of env ?cd]
  have fr: "from_node (link_objs ?net ?l) = new_ref gs s0 mA" by simp
  from tB fnB have "?t \<in> set (snd ?B)" "?f \<notin> set (snd ?B)" by (simp_all add: in_group_def)
  from consolidated_endpoints(1) [OF wf0 vg B this adji, of env ?cd]
  have to: "to_node (link_objs ?net ?l) = new_ref gs s0 mB" by simp
  from consolidated_new_node(1) [OF wf0 vg A, of env ?cd] consolidated_new_node(5) [OF wf0 vg A]
  have nA: "main_node_id (node_objs ?net (new_ref gs s0 mA)) = Some mA"
    "new_ref gs s0 mA \<notin> registered s0" by simp_all
  from consolidated_new_node(1) [OF wf0 vg B, of env ?cd] consolidated_new_node(5) [OF wf0 vg B]
  have nB: "main_node_id (node_objs ?net (new_ref gs s0 mB)) = Some mB"
    "new_ref gs s0 mB \<notin> registered s0" by simp_all
  from nA(1) nB(1) ne have d: "new_ref gs s0 mA \<noteq> new_ref gs s0 mB" by auto
  have u: "consolidateComplexIntersections env network auto_identify int_buffer
           = consolidate_groups env ?cd (group_dict s0) s0"
    unfolding s0_def by (rule consolidate_unfold)
  from u ret in' fr to nA nB d show ?thesis by blast
qed

theorem cross_group_link_witness:
  "well_formed (pair_net 10)
   \<and> mset [(1, [2, 3]), (0, [0, 1])] = mset (group_dict (detected (pair_net 10) True (Num 10)))
   \<and> (101, 1) \<in> set (link_dict (detected (pair_net 10) True (Num 10)))
   \<and> in_group (detected (pair_net 10) True (Num 10)) 0 (from_node (link_objs (detected (pair_net 10) True (Num 10)) 1))
   \<and> in_group (detected (pair_net 10) True (Num 10)) 1 (to_node (link_objs (detected (pair_net 10) True (Num 10)) 1))
   \<and> (\<exists>net'. consolidate_groups scenario_env (snd (node_groups (detected (pair_net 10) True (Num 10))))
                [(1, [2, 3]), (0, [0, 1])] (detected (pair_net 10) True (Num 10)) = Inr net'
         \<and> (101, 1) \<in> set (link_dict net')
         \<and> from_node (link_objs net' 1) = 5 \<and> to_node (link_objs net' 1) = 4)
   \<and> (\<exists>net'. consolidateComplexIntersections scenario_env (pair_net 10) True (Num 10) = Inr net'
         \<and> (101, 1) \<in> set (link_dict net')
         \<and> from_node (link_objs net' 1) = 4 \<and> to_node (link_objs net' 1) = 5)"
proof -
  let ?s = "detected (pair_net 10) True (Num 10)"
  have wf: "well_formed (pair_net 10)" by code_simp
  have gd: "group_dict ?s = [(0, [0, 1]), (1, [2, 3])]" by code_simp
  have p1: "mset [(1, [2, 3]), (0, [0, 1])] = mset (group_dict ?s)"
    unfolding gd by (simp add: add.commute)
  have p2: "mset (group_dict ?s) = mset (group_dict ?s)" by simp
  have h: "(101, 1) \<in> set (link_dict ?s)"
    "2 \<le> length (group_of ?s 0)" "2 \<le> length (group_of ?s 1)" "(0 :: int) \<noteq> 1"
    "in_group ?s 0 (from_node (link_objs ?s (snd (101 :: int, 1 :: nat))))"
    "in_group ?s 1 (to_node (link_objs ?s (snd (101 :: int, 1 :: nat))))"
    by code_simp+
  have n: "new_ref [(1, [2, 3]), (0, [0, 1])] ?s 0 = 5" "new_ref [(1, [2, 3]), (0, [0, 1])] ?s 1 = 4"
    "new_ref (group_dict ?s) ?s 0 = 4" "new_ref (group_dict ?s) ?s 1 = 5"
    by code_simp+
  from cross_group_link [OF wf p1 h, of scenario_env]
  have a: "\<exists>net'. consolidate_groups scenario_env (snd (node_groups ?s))
                [(1, [2, 3]), (0, [0, 1])] ?s = Inr net'
         \<and> (101, 1) \<in> set (link_dict net')
         \<and> from_node (link_objs net' 1) = 5 \<and> to_node (link_objs net' 1) = 4"
    unfolding n by auto
  from cross_group_link [OF wf p2 h, of scenario_env]
  have b: "\<exists>net'. consolidateComplexIntersections scenario_env (pair_net 10) True (Num 10) = Inr net'
         \<and> (101, 1) \<in> set (link_dict net')
         \<and> from_node (link_objs net' 1) = 4 \<and> to_node (link_objs net' 1) = 5"
    unfolding n by auto
  from h(5,6) have i: "in_group ?s 0 (from_node (link_objs ?s 1))"
    "in_group ?s 1 (to_node (link_objs ?s 1))" by simp_all
  from wf p1 h(1) i a b show ?thesis by blast
qed

end
